theory Spec2Isabelle
  imports Complex_Main "HOL-Library.Word"
begin

unbundle bit_operations_syntax

section \<open>Reference random generators: xoshiro256** and MT19937-64\<close>

text \<open>
  Both generators work on unsigned 64-bit integers (\<open>uint64_t\<close>, \<open>unsigned long long\<close>),
  modelled as \<open>64 word\<close>: \<open>+\<close>, \<open>-\<close> and \<open>*\<close> wrap modulo \<open>2 ^ 64\<close>, \<open><<\<close> is
  \<open>push_bit\<close> and \<open>>>\<close> is \<open>drop_bit\<close>. A C array inside a struct is a list in a
  record; \<open>a[i] = v\<close> is \<open>a[i := v]\<close> and \<open>a[i]\<close> is \<open>a ! i\<close>. The theorems assume the
  length the struct declares wherever an element is read. A \<open>double\<close> is the real
  number it denotes, and every floating-point operation of the source rounds its exact
  result to the nearest double.
\<close>

type_synonym uint64_t = "64 word"

subsection \<open>xoshiro256starstar.c\<close>

text \<open>
  \<open>rotl(x, k) = (x << k) | (x >> (64 - k))\<close>. The source only calls it with \<open>k = 7\<close> and
  \<open>k = 45\<close>; in C both shifts are defined only for \<open>0 < k < 64\<close>, which is the range the
  theorems about \<open>rotl\<close> assume.
\<close>

definition rotl :: "uint64_t \<Rightarrow> nat \<Rightarrow> uint64_t" where
  "rotl x k = push_bit k x OR drop_bit (64 - k) x"

record xoshiro_state =
  s :: "uint64_t list"

definition xoshiro_next :: "xoshiro_state \<Rightarrow> uint64_t \<times> xoshiro_state" where
  "xoshiro_next state =
     (let result_starstar = rotl (s state ! 1 * 5) 7 * 9;
          t = push_bit 17 (s state ! 1);
          state = state\<lparr>s := (s state)[2 := s state ! 2 XOR s state ! 0]\<rparr>;
          state = state\<lparr>s := (s state)[3 := s state ! 3 XOR s state ! 1]\<rparr>;
          state = state\<lparr>s := (s state)[1 := s state ! 1 XOR s state ! 2]\<rparr>;
          state = state\<lparr>s := (s state)[0 := s state ! 0 XOR s state ! 3]\<rparr>;
          state = state\<lparr>s := (s state)[2 := s state ! 2 XOR t]\<rparr>;
          state = state\<lparr>s := (s state)[3 := rotl (s state ! 3) 45]\<rparr>
      in (result_starstar, state))"

text \<open>
  A caller draws repeatedly from the same state: \<open>xoshiro_draws n state\<close> is the list of
  the first \<open>n\<close> values that successive calls of \<open>xoshiro_next\<close> return, with the state
  left behind by the last call.
\<close>

fun xoshiro_draws :: "nat \<Rightarrow> xoshiro_state \<Rightarrow> uint64_t list \<times> xoshiro_state" where
  "xoshiro_draws 0 state = ([], state)"
| "xoshiro_draws (Suc n) state =
     (let (r, state) = xoshiro_next state;
          (rs, state) = xoshiro_draws n state
      in (r # rs, state))"

text \<open>The degenerate seed: every word of the state is zero.\<close>

definition xoshiro_all_zero :: "xoshiro_state \<Rightarrow> bool" where
  "xoshiro_all_zero state = (s state = [0, 0, 0, 0])"

subsection \<open>mt19937-64.c\<close>

definition NN :: nat where "NN = 312"
definition MM :: nat where "MM = 156"
definition MATRIX_A :: uint64_t where "MATRIX_A = 0xB5026F5AA96619E9"
definition UM :: uint64_t where "UM = 0xFFFFFFFF80000000"
definition LM :: uint64_t where "LM = 0x7FFFFFFF"

record mt19937_64 =
  mt :: "uint64_t list"
  mti :: nat

text \<open>
  \<open>init_genrand64\<close>: the loop counter is the field \<open>mti\<close> itself, which runs from 1 and
  is left at \<open>NN\<close>.
\<close>

function init_genrand64_loop :: "mt19937_64 \<Rightarrow> mt19937_64" where
  "init_genrand64_loop context =
     (if mti context < NN
      then init_genrand64_loop
             (context\<lparr>mt := (mt context)[mti context :=
                          6364136223846793005
                            * (mt context ! (mti context - 1)
                                 XOR drop_bit 62 (mt context ! (mti context - 1)))
                          + of_nat (mti context)],
                      mti := mti context + 1\<rparr>)
      else context)"
  by pat_completeness auto
termination
  by (relation "measure (\<lambda>context. NN - mti context)") auto

declare init_genrand64_loop.simps [simp del]

definition init_genrand64 :: "mt19937_64 \<Rightarrow> uint64_t \<Rightarrow> mt19937_64" where
  "init_genrand64 context seed =
     init_genrand64_loop (context\<lparr>mt := (mt context)[0 := seed], mti := 1\<rparr>)"

text \<open>
  \<open>init_by_array64\<close> receives the key as a pointer and a separate \<open>key_length\<close>. The
  model keeps both: the list is the memory behind the pointer, and a read of
  \<open>init_key[j]\<close> beyond it has no defined result (\<open>None\<close>). The cursors \<open>i\<close> and \<open>j\<close>
  stay below \<open>NN\<close> and \<open>key_length + 1\<close>, so they are natural numbers; \<open>+ j\<close> and
  \<open>- i\<close> are 64-bit arithmetic. Each \<open>for (...; k; k--)\<close> loop recurses on its
  counter \<open>k\<close>.
\<close>

fun init_by_array64_loop1 ::
  "nat \<Rightarrow> uint64_t list \<Rightarrow> uint64_t \<Rightarrow> mt19937_64 \<times> nat \<times> nat
     \<Rightarrow> (mt19937_64 \<times> nat \<times> nat) option" where
  "init_by_array64_loop1 0 init_key key_length (context, i, j) = Some (context, i, j)"
| "init_by_array64_loop1 (Suc k) init_key key_length (context, i, j) =
     (if j < length init_key
      then
        (let context = context\<lparr>mt := (mt context)[i :=
                         ((mt context ! i)
                            XOR ((mt context ! (i - 1) XOR drop_bit 62 (mt context ! (i - 1)))
                                   * 3935559000370003845))
                         + init_key ! j + of_nat j]\<rparr>;
             i = i + 1;
             j = j + 1;
             (context, i) =
               (if i \<ge> NN
                then (context\<lparr>mt := (mt context)[0 := mt context ! (NN - 1)]\<rparr>, 1)
                else (context, i));
             j = (if j \<ge> unat key_length then 0 else j)
         in init_by_array64_loop1 k init_key key_length (context, i, j))
      else None)"

fun init_by_array64_loop2 :: "nat \<Rightarrow> mt19937_64 \<times> nat \<Rightarrow> mt19937_64 \<times> nat" where
  "init_by_array64_loop2 0 (context, i) = (context, i)"
| "init_by_array64_loop2 (Suc k) (context, i) =
     (let context = context\<lparr>mt := (mt context)[i :=
                      ((mt context ! i)
                         XOR ((mt context ! (i - 1) XOR drop_bit 62 (mt context ! (i - 1)))
                                * 2862933555777941757))
                      - of_nat i]\<rparr>;
          i = i + 1;
          (context, i) =
            (if i \<ge> NN
             then (context\<lparr>mt := (mt context)[0 := mt context ! (NN - 1)]\<rparr>, 1)
             else (context, i))
      in init_by_array64_loop2 k (context, i))"

definition init_by_array64 ::
  "mt19937_64 \<Rightarrow> uint64_t list \<Rightarrow> uint64_t \<Rightarrow> mt19937_64 option" where
  "init_by_array64 context init_key key_length =
     (let context = init_genrand64 context 19650218;
          i = 1;
          j = 0;
          k = (if NN > unat key_length then NN else unat key_length)
      in case init_by_array64_loop1 k init_key key_length (context, i, j) of
           None \<Rightarrow> None
         | Some (context, i, j) \<Rightarrow>
             (let (context, i) = init_by_array64_loop2 (NN - 1) (context, i)
              in Some (context\<lparr>mt := (mt context)[0 := push_bit 63 1]\<rparr>)))"

text \<open>
  \<open>genrand64_int64\<close>. The loop of the regeneration runs on two \<open>size_t\<close> cursors with
  the test \<open>i != mid - 1\<close>; they are 64-bit words here, so the loop is total as it is in
  C, and \<open>unat\<close> reads them as array indices.
\<close>

function untwist_loop :: "mt19937_64 \<Rightarrow> 64 word \<Rightarrow> 64 word \<Rightarrow> 64 word \<Rightarrow> mt19937_64" where
  "untwist_loop context mid i j =
     (if i \<noteq> mid - 1
      then
        (let x = (mt context ! unat i AND UM) OR (mt context ! unat (i + 1) AND LM);
             context = context\<lparr>mt := (mt context)[unat i :=
                         (mt context ! unat (i + mid) XOR drop_bit 1 x)
                           XOR ((mt context ! unat (i + 1) AND 1) * MATRIX_A)]\<rparr>;
             y = (mt context ! unat j AND UM) OR (mt context ! unat (j + 1) AND LM);
             context = context\<lparr>mt := (mt context)[unat j :=
                         (mt context ! unat (j - mid) XOR drop_bit 1 y)
                           XOR ((mt context ! unat (j + 1) AND 1) * MATRIX_A)]\<rparr>
         in untwist_loop context mid (i + 1) (j + 1))
      else context)"
  by pat_completeness auto
termination
proof (relation "measure (\<lambda>(context, mid, i, j). unat (mid - 1 - i))")
  show "wf (measure (\<lambda>(context, mid, i, j). unat (mid - 1 - i)))"
    by simp
next
  fix c c' :: mt19937_64 and mid i j :: "64 word"
  assume neq: "i \<noteq> mid - 1"
  have nz: "mid - 1 - i \<noteq> 0"
    using neq by auto
  have e: "mid - 1 - (i + 1) = (mid - 1 - i) - 1"
    by simp
  have dec: "unat (w - 1) < unat w" if "w \<noteq> 0" for w :: "64 word"
    using that by (simp add: unat_minus_one unat_gt_0)
  have "unat ((mid - 1 - i) - 1) < unat (mid - 1 - i)"
    using nz by (rule dec)
  then have "unat (mid - 1 - (i + 1)) < unat (mid - 1 - i)"
    unfolding e .
  then show "((c', mid, i + 1, j + 1), c, mid, i, j)
               \<in> measure (\<lambda>(context, mid, i, j). unat (mid - 1 - i))"
    by simp
qed

declare untwist_loop.simps [simp del]

definition untwist :: "mt19937_64 \<Rightarrow> mt19937_64" where
  "untwist context =
     (let mid = NN div 2;
          stateMid = mt context ! mid;
          context = untwist_loop context (of_nat mid) 0 (of_nat mid);
          x = (mt context ! (mid - 1) AND UM) OR (stateMid AND LM);
          context = context\<lparr>mt := (mt context)[mid - 1 :=
                      (mt context ! (NN - 1) XOR drop_bit 1 x)
                        XOR ((stateMid AND 1) * MATRIX_A)]\<rparr>;
          y = (mt context ! (NN - 1) AND UM) OR (mt context ! 0 AND LM);
          context = context\<lparr>mt := (mt context)[NN - 1 :=
                      (mt context ! (mid - 1) XOR drop_bit 1 y)
                        XOR ((mt context ! 0 AND 1) * MATRIX_A)]\<rparr>
      in context\<lparr>mti := 0\<rparr>)"

definition genrand64_int64 :: "mt19937_64 \<Rightarrow> uint64_t \<times> mt19937_64" where
  "genrand64_int64 context =
     (let context = (if mti context \<ge> NN then untwist context else context);
          result = mt context ! mti context;
          context = context\<lparr>mti := mti context + 1\<rparr>;
          result = result XOR (drop_bit 29 result AND 0x5555555555555555);
          result = result XOR (push_bit 17 result AND 0x71D67FFFEDA60000);
          result = result XOR (push_bit 37 result AND 0xFFF7EEE000000000);
          result = result XOR drop_bit 43 result
      in (result, context))"

subsection \<open>mt19937-64.c: the draws in double precision\<close>

text \<open>
  \<open>genrand64_real1\<close>, \<open>genrand64_real2\<close> and \<open>genrand64_real3\<close> compute in
  \<open>double\<close>. A finite double is a real number \<open>m * 2 ^ e\<close> with an integer \<open>m\<close> of
  at most 53 bits; \<open>round_double x\<close> is the double nearest to \<open>x\<close>, with a tie going
  to the even significand (the default rounding of IEEE 754): the exponent of \<open>x\<close> is
  \<open>\<lfloor>log 2 \<bar>x\<bar>\<rfloor>\<close>, not below \<open>- 1022\<close> (below it the doubles are subnormal and
  equally spaced), and the last place of the significand is worth \<open>2 ^ (e - 52)\<close>.
  Overflow to infinity is left out: no value of these three functions exceeds \<open>2 ^ 53\<close>.
  Each operation of the source rounds once: the conversion of the shifted draw to
  \<open>double\<close>, the division that gives the constant factor, the addition of \<open>0.5\<close> and
  the multiplication. The literals \<open>1.0\<close>, \<open>0.5\<close>, \<open>9007199254740991.0\<close>,
  \<open>9007199254740992.0\<close> and \<open>4503599627370496.0\<close> are doubles themselves.
\<close>

definition round_half_even :: "real \<Rightarrow> int" where
  "round_half_even r =
     (let f = \<lfloor>r\<rfloor>; d = r - of_int f
      in if d < 1 / 2 then f
         else if 1 / 2 < d then f + 1
         else if even f then f else f + 1)"

definition round_double :: "real \<Rightarrow> real" where
  "round_double x =
     (if x = 0 then 0
      else let e = max \<lfloor>log 2 \<bar>x\<bar>\<rfloor> (- 1022);
               ulp = 2 powr (of_int e - 52)
           in of_int (round_half_even (x / ulp)) * ulp)"

definition double_of_u64 :: "uint64_t \<Rightarrow> real" where
  "double_of_u64 w = round_double (real (unat w))"

definition double_add :: "real \<Rightarrow> real \<Rightarrow> real" where
  "double_add a b = round_double (a + b)"

definition double_mul :: "real \<Rightarrow> real \<Rightarrow> real" where
  "double_mul a b = round_double (a * b)"

definition double_div :: "real \<Rightarrow> real \<Rightarrow> real" where
  "double_div a b = round_double (a / b)"

definition genrand64_real1 :: "mt19937_64 \<Rightarrow> real \<times> mt19937_64" where
  "genrand64_real1 context =
     (let (r, context) = genrand64_int64 context
      in (double_mul (double_of_u64 (drop_bit 11 r)) (double_div 1 9007199254740991), context))"

definition genrand64_real2 :: "mt19937_64 \<Rightarrow> real \<times> mt19937_64" where
  "genrand64_real2 context =
     (let (r, context) = genrand64_int64 context
      in (double_mul (double_of_u64 (drop_bit 11 r)) (double_div 1 9007199254740992), context))"

definition genrand64_real3 :: "mt19937_64 \<Rightarrow> real \<times> mt19937_64" where
  "genrand64_real3 context =
     (let (r, context) = genrand64_int64 context
      in (double_mul (double_add (double_of_u64 (drop_bit 12 r)) (1 / 2))
            (double_div 1 4503599627370496), context))"

subsection \<open>Array seeding as the specification words it\<close>

text \<open>
  The specification describes array seeding on the word array alone: one step of pass 1
  and one step of pass 2, with the cursors wrapping when they reach 312 and the key
  length, pass 1 repeated \<open>max(312, L)\<close> times from \<open>i = 1\<close>, \<open>j = 0\<close>, pass 2
  repeated 311 times, and at the end \<open>words[0] = 2^63\<close> and \<open>index = 312\<close>. These
  definitions follow that text; the theorems compare \<open>init_by_array64\<close> with them.
\<close>

definition seed_array_pass1 ::
  "uint64_t list \<Rightarrow> uint64_t list \<times> nat \<times> nat \<Rightarrow> uint64_t list \<times> nat \<times> nat" where
  "seed_array_pass1 key = (\<lambda>(words, i, j).
     let words = words[i := ((words ! i)
                   XOR ((words ! (i - 1) XOR drop_bit 62 (words ! (i - 1))) * 3935559000370003845))
                   + key ! j + of_nat j];
         (words, i) = (if i + 1 = 312 then (words[0 := words ! 311], 1) else (words, i + 1));
         j = (if j + 1 = length key then 0 else j + 1)
     in (words, i, j))"

definition seed_array_pass2 :: "uint64_t list \<times> nat \<Rightarrow> uint64_t list \<times> nat" where
  "seed_array_pass2 = (\<lambda>(words, i).
     let words = words[i := ((words ! i)
                   XOR ((words ! (i - 1) XOR drop_bit 62 (words ! (i - 1))) * 2862933555777941757))
                   - of_nat i];
         (words, i) = (if i + 1 = 312 then (words[0 := words ! 311], 1) else (words, i + 1))
     in (words, i))"

definition mt_seed_array_spec :: "mt19937_64 \<Rightarrow> uint64_t list \<Rightarrow> mt19937_64" where
  "mt_seed_array_spec context key =
     (let words = mt (init_genrand64 context 19650218);
          (words, i, j) = (seed_array_pass1 key ^^ max 312 (length key)) (words, 1, 0);
          (words, i) = (seed_array_pass2 ^^ 311) (words, i)
      in \<lparr>mt = words[0 := 2 ^ 63], mti = 312\<rparr>)"

subsection \<open>The textbook regeneration\<close>

text \<open>
  The recurrence as the specification words it: one pass over \<open>k = 0, \<dots>, 311\<close>, in
  place, with the neighbours \<open>k + 1\<close> and \<open>k + 156\<close> taken modulo 312.
\<close>

definition textbook_step :: "uint64_t list \<Rightarrow> nat \<Rightarrow> uint64_t list" where
  "textbook_step words k =
     words[k := (words ! ((k + 156) mod 312)
                   XOR drop_bit 1 ((words ! k AND 0xFFFFFFFF80000000)
                                     OR (words ! ((k + 1) mod 312) AND 0x7FFFFFFF)))
                 XOR (if bit (words ! ((k + 1) mod 312)) 0 then 0xB5026F5AA96619E9 else 0)]"

definition textbook_regenerate :: "uint64_t list \<Rightarrow> uint64_t list" where
  "textbook_regenerate words = foldl textbook_step words [0..<312]"

subsection \<open>The regenerated words in closed form\<close>

text \<open>
  \<open>twist\<close> is the expression that the source assigns in each of its four updates.
  \<open>regen_word old k\<close> is word \<open>k\<close> of the new batch in terms of the old batch \<open>old\<close>;
  \<open>untwist_body\<close> is one round of the loop on natural-number indices, and the two
  invariants say which words have been replaced after \<open>n\<close> rounds of the source's loop
  and after \<open>n\<close> steps of the textbook pass.
\<close>

definition twist :: "uint64_t \<Rightarrow> uint64_t \<Rightarrow> uint64_t \<Rightarrow> uint64_t" where
  "twist far cur nxt =
     (far XOR drop_bit 1 ((cur AND UM) OR (nxt AND LM))) XOR ((nxt AND 1) * MATRIX_A)"

definition regen_lo :: "uint64_t list \<Rightarrow> nat \<Rightarrow> uint64_t" where
  "regen_lo old k = twist (old ! (k + 156)) (old ! k) (old ! (k + 1))"

definition regen_word :: "uint64_t list \<Rightarrow> nat \<Rightarrow> uint64_t" where
  "regen_word old k =
     (if k < 156 then regen_lo old k
      else if k < 311 then twist (regen_lo old (k - 156)) (old ! k) (old ! (k + 1))
      else twist (regen_lo old 155) (old ! 311) (regen_lo old 0))"

definition untwist_inv :: "uint64_t list \<Rightarrow> nat \<Rightarrow> uint64_t list \<Rightarrow> bool" where
  "untwist_inv old n w \<longleftrightarrow>
     length w = 312 \<and>
     (\<forall>k<312. w ! k = (if k < n \<or> (156 \<le> k \<and> k < 156 + n) then regen_word old k else old ! k))"

definition textbook_inv :: "uint64_t list \<Rightarrow> nat \<Rightarrow> uint64_t list \<Rightarrow> bool" where
  "textbook_inv old n w \<longleftrightarrow>
     length w = 312 \<and> (\<forall>k<312. w ! k = (if k < n then regen_word old k else old ! k))"

definition untwist_body :: "uint64_t list \<Rightarrow> nat \<Rightarrow> uint64_t list" where
  "untwist_body w n =
     (let w = w[n := twist (w ! (n + 156)) (w ! n) (w ! (n + 1))]
      in w[n + 156 := twist (w ! n) (w ! (n + 156)) (w ! (n + 157))])"

subsection \<open>Seeding as scans of the word array\<close>

text \<open>
  Each loop of the seeding walks the array from left to right, and the word it writes at
  position \<open>i\<close> depends on the word just written at \<open>i - 1\<close>. \<open>seed_step\<close>,
  \<open>mix1\<close> and \<open>mix2\<close> are the three right-hand sides of the source; \<open>init_scan\<close>,
  \<open>pass1_scan\<close> and \<open>pass2_scan\<close> produce the words of one walk as a list. For a key of
  at most 312 words, \<open>seeded_words\<close> is the whole array after \<open>init_by_array64\<close>: pass 1
  is one walk over positions 1 to 311 and one more step at position 1, pass 2 one walk over
  positions 2 to 311 and one more step at position 1. \<open>temper\<close> is the tempering that
  \<open>genrand64_int64\<close> applies to the word it returns.
\<close>

definition seed_step :: "uint64_t \<Rightarrow> nat \<Rightarrow> uint64_t" where
  "seed_step p i = 6364136223846793005 * (p XOR drop_bit 62 p) + of_nat i"

definition mix1 :: "uint64_t \<Rightarrow> uint64_t \<Rightarrow> uint64_t \<Rightarrow> nat \<Rightarrow> uint64_t" where
  "mix1 x p k j = ((x XOR ((p XOR drop_bit 62 p) * 3935559000370003845)) + k) + of_nat j"

definition mix2 :: "uint64_t \<Rightarrow> uint64_t \<Rightarrow> nat \<Rightarrow> uint64_t" where
  "mix2 x p i = (x XOR ((p XOR drop_bit 62 p) * 2862933555777941757)) - of_nat i"

definition temper :: "uint64_t \<Rightarrow> uint64_t" where
  "temper r =
     (let r = r XOR (drop_bit 29 r AND 0x5555555555555555);
          r = r XOR (push_bit 17 r AND 0x71D67FFFEDA60000);
          r = r XOR (push_bit 37 r AND 0xFFF7EEE000000000)
      in r XOR drop_bit 43 r)"

fun init_scan :: "uint64_t \<Rightarrow> nat \<Rightarrow> nat \<Rightarrow> uint64_t list" where
  "init_scan p i 0 = []"
| "init_scan p i (Suc n) = (let v = seed_step p i in v # init_scan v (i + 1) n)"

fun pass1_scan :: "uint64_t list \<Rightarrow> uint64_t \<Rightarrow> nat \<Rightarrow> uint64_t list \<Rightarrow> uint64_t list" where
  "pass1_scan key p j [] = []"
| "pass1_scan key p j (x # xs) =
     (let v = mix1 x p (key ! j) j
      in v # pass1_scan key v (if j + 1 = length key then 0 else j + 1) xs)"

fun pass2_scan :: "uint64_t \<Rightarrow> nat \<Rightarrow> uint64_t list \<Rightarrow> uint64_t list" where
  "pass2_scan p i [] = []"
| "pass2_scan p i (x # xs) = (let v = mix2 x p i in v # pass2_scan v (i + 1) xs)"

definition seeded_words :: "uint64_t list \<Rightarrow> uint64_t list" where
  "seeded_words key =
     (let ys1 = pass1_scan key 19650218 0 (init_scan 19650218 1 311);
          j = 311 mod length key;
          v1 = mix1 (hd ys1) (last ys1) (key ! j) j;
          ys2 = pass2_scan v1 2 (tl ys1);
          m1 = mix2 v1 (last ys2) 1
      in push_bit 63 1 # m1 # ys2)"

text \<open>
  Values for evaluation: \<open>u64 n\<close> is the 64-bit word of the natural number \<open>n\<close>, so
  that one step of a scan is computed on natural numbers and reduced modulo \<open>2 ^ 64\<close> at
  once; \<open>seq x f\<close> is \<open>f x\<close>, used where \<open>x\<close> is to be computed before \<open>f\<close> is entered.
\<close>

definition u64 :: "nat \<Rightarrow> uint64_t" where
  "u64 n = of_nat n"

definition seq :: "'a \<Rightarrow> ('a \<Rightarrow> 'b) \<Rightarrow> 'b" where
  "seq x f = f x"

section \<open>Properties of xoshiro256**\<close>

lemma xoshiro_next_closed:
  "xoshiro_next \<lparr>s = [s0, s1, s2, s3]\<rparr> =
     (rotl (s1 * 5) 7 * 9,
      \<lparr>s = [s0 XOR (s3 XOR s1), s1 XOR (s2 XOR s0), (s2 XOR s0) XOR push_bit 17 s1,
             rotl (s3 XOR s1) 45]\<rparr>)"
  by (simp add: xoshiro_next_def Let_def)

lemma rotl_zero_iff: "0 < k \<Longrightarrow> k < 64 \<Longrightarrow> rotl x k = 0 \<longleftrightarrow> x = 0"
proof
  assume k: "0 < k" "k < 64" and z: "rotl x k = 0"
  have "rotl (rotl x k) (64 - k) = x"
    using k by (auto intro!: bit_word_eqI simp add: rotl_def bit_simps)
  with z have "rotl 0 (64 - k) = x" by simp
  then show "x = 0" by (simp add: rotl_def)
qed (simp add: rotl_def)

lemma word_xor_eq_0_iff: "a XOR b = 0 \<longleftrightarrow> a = b" for a b :: "64 word"
proof
  assume "a XOR b = 0"
  then have "(a XOR b) XOR b = b" by simp
  then show "a = b" by (simp add: xor.assoc)
qed simp

lemma push_bit_fixed_point:
  fixes b :: "64 word"
  assumes "b = push_bit 17 b"
  shows "b = 0"
proof -
  have "\<not> bit b n" for n
  proof (induction n rule: less_induct)
    case (less n)
    have "bit b n = bit (push_bit 17 b) n" using assms by simp
    then have "bit b n \<longrightarrow> 17 \<le> n \<and> bit b (n - 17)"
      by (auto simp add: bit_simps dest: bit_imp_le_length)
    then show ?case using less.IH [of "n - 17"] by auto
  qed
  then show ?thesis by (simp add: bit_eq_iff)
qed

text \<open>
  C4. For every state \<open>s[0..3]\<close>, \<open>xoshiro_next\<close> returns \<open>rotl(s[1] * 5, 7) * 9\<close> of the
  value \<open>s[1]\<close> had before the step, with wrap-around multiplication, and updates the
  state by \<open>t = s[1] << 17\<close>, then \<open>s[2] ^= s[0]\<close>, \<open>s[3] ^= s[1]\<close>, \<open>s[1] ^= s[2]\<close>,
  \<open>s[0] ^= s[3]\<close> in this order, each using the value the previous assignment left,
  then \<open>s[2] ^= t\<close>, then \<open>s[3] = rotl(s[3], 45)\<close>.
\<close>

theorem xoshiro_next_steps:
  "xoshiro_next \<lparr>s = [s0, s1, s2, s3]\<rparr> =
     (let result = rotl (s1 * 5) 7 * 9;
          t = push_bit 17 s1;
          s2' = s2 XOR s0;
          s3' = s3 XOR s1;
          s1' = s1 XOR s2';
          s0' = s0 XOR s3';
          s2'' = s2' XOR t;
          s3'' = rotl s3' 45
      in (result, \<lparr>s = [s0', s1', s2'', s3'']\<rparr>))"
  by (simp add: xoshiro_next_def Let_def)

text \<open>
  C5. If at least one of the four words of the state is not zero, then at least one word
  of the state after a call of \<open>xoshiro_next\<close> is not zero.
\<close>

theorem xoshiro_next_preserves_nonzero:
  assumes "length (s state) = 4" and "\<not> xoshiro_all_zero state"
  shows "\<not> xoshiro_all_zero (snd (xoshiro_next state))"
proof -
  obtain s0 s1 s2 s3 where st: "s state = [s0, s1, s2, s3]"
    using assms(1) by (auto simp add: length_Suc_conv eval_nat_numeral)
  then have state: "state = \<lparr>s = [s0, s1, s2, s3]\<rparr>" by (cases state) simp
  show ?thesis
  proof
    assume "xoshiro_all_zero (snd (xoshiro_next state))"
    then have z: "s0 XOR (s3 XOR s1) = 0" "s1 XOR (s2 XOR s0) = 0"
      "(s2 XOR s0) XOR push_bit 17 s1 = 0" "rotl (s3 XOR s1) 45 = 0"
      by (simp_all add: state xoshiro_next_closed xoshiro_all_zero_def)
    from z(4) have "s3 XOR s1 = 0" by (simp add: rotl_zero_iff)
    then have 31: "s3 = s1" by (simp add: word_xor_eq_0_iff)
    with z(1) have 0: "s0 = 0" by simp
    with z(2) have 12: "s1 = s2" by (simp add: word_xor_eq_0_iff)
    with z(3) 0 have "s1 = push_bit 17 s1" by (simp add: word_xor_eq_0_iff)
    then have "s1 = 0" by (rule push_bit_fixed_point)
    with 31 12 0 have "xoshiro_all_zero state" by (simp add: state xoshiro_all_zero_def)
    with assms(2) show False by simp
  qed
qed

theorem xoshiro_next_preserves_nonzero_witness:
  "length (s \<lparr>s = [1, 2, 3, 4]\<rparr>) = 4 \<and> \<not> xoshiro_all_zero \<lparr>s = [1, 2, 3, 4]\<rparr>
     \<and> \<not> xoshiro_all_zero (snd (xoshiro_next \<lparr>s = [1, 2, 3, 4]\<rparr>))"
  using xoshiro_next_preserves_nonzero [of "\<lparr>s = [1, 2, 3, 4]\<rparr>"]
  by (simp add: xoshiro_all_zero_def)

text \<open>
  C7. From the state whose four words are zero, \<open>xoshiro_next\<close> returns 0 and leaves the
  four words zero, so every later draw is 0 too: any number \<open>n\<close> of successive draws is
  \<open>n\<close> zeros, and the state is still all zero afterwards.
\<close>

theorem xoshiro_all_zero_fixed_point:
  "xoshiro_next \<lparr>s = [0, 0, 0, 0]\<rparr> = (0, \<lparr>s = [0, 0, 0, 0]\<rparr>) \<and>
   xoshiro_draws n \<lparr>s = [0, 0, 0, 0]\<rparr> = (replicate n 0, \<lparr>s = [0, 0, 0, 0]\<rparr>)"
proof -
  have step: "xoshiro_next \<lparr>s = [0, 0, 0, 0]\<rparr> = (0, \<lparr>s = [0, 0, 0, 0]\<rparr>)"
    by (simp add: xoshiro_next_closed rotl_def)
  have "xoshiro_draws n \<lparr>s = [0, 0, 0, 0]\<rparr> = (replicate n 0, \<lparr>s = [0, 0, 0, 0]\<rparr>)"
    by (induction n) (simp_all add: step)
  with step show ?thesis by simp
qed

text \<open>
  C8. For every 64-bit \<open>x\<close> and every \<open>k\<close> with \<open>0 < k < 64\<close>, rotating left by \<open>k\<close>
  and then by \<open>64 - k\<close> gives \<open>x\<close> back.
\<close>

theorem rotl_inverse:
  "0 < k \<Longrightarrow> k < 64 \<Longrightarrow> rotl (rotl x k) (64 - k) = x"
  by (rule bit_word_eqI) (auto simp add: rotl_def bit_simps)

theorem rotl_inverse_witness:
  "(0::nat) < 7 \<and> (7::nat) < 64 \<and> rotl (rotl 0x0123456789ABCDEF 7) (64 - 7) = 0x0123456789ABCDEF"
  using rotl_inverse [of 7 "0x0123456789ABCDEF"] by simp

section \<open>Properties of MT19937-64\<close>

subsection \<open>Seeding\<close>

lemma init_genrand64_loop_length [simp]:
  "length (mt (init_genrand64_loop ctx)) = length (mt ctx)"
  by (induction ctx rule: init_genrand64_loop.induct)
     (subst init_genrand64_loop.simps, simp)

lemma init_genrand64_loop_mti:
  "mti ctx \<le> NN \<Longrightarrow> mti (init_genrand64_loop ctx) = NN"
  by (induction ctx rule: init_genrand64_loop.induct)
     (subst init_genrand64_loop.simps, simp)

lemma init_genrand64_loop_head:
  "0 < mti ctx \<Longrightarrow> mt (init_genrand64_loop ctx) ! 0 = mt ctx ! 0"
  by (induction ctx rule: init_genrand64_loop.induct)
     (subst init_genrand64_loop.simps, simp)

lemma init_genrand64_length [simp]:
  "length (mt (init_genrand64 ctx seed)) = length (mt ctx)"
  by (simp add: init_genrand64_def)

lemma init_genrand64_mti [simp]: "mti (init_genrand64 ctx seed) = NN"
  by (simp add: init_genrand64_def init_genrand64_loop_mti NN_def)

lemma init_genrand64_head:
  "0 < length (mt ctx) \<Longrightarrow> mt (init_genrand64 ctx seed) ! 0 = seed"
  by (simp add: init_genrand64_def init_genrand64_loop_head)

lemma seed_array_pass1_inv:
  assumes "seed_array_pass1 key (w, i, j) = (w', i', j')" and "i < 312" and "j < length key"
  shows "i' < 312 \<and> j' < length key \<and> length w' = length w"
  using assms by (auto simp add: seed_array_pass1_def Let_def split: if_splits)

lemma seed_array_pass1_funpow_inv:
  assumes "(seed_array_pass1 key ^^ k) (w, i, j) = (w', i', j')" and "i < 312" and "j < length key"
  shows "i' < 312 \<and> j' < length key \<and> length w' = length w"
  using assms
proof (induction k arbitrary: w' i' j')
  case 0
  then show ?case by simp
next
  case (Suc k)
  obtain w1 i1 j1 where mid: "(seed_array_pass1 key ^^ k) (w, i, j) = (w1, i1, j1)"
    by (cases "(seed_array_pass1 key ^^ k) (w, i, j)") auto
  with Suc.prems have "seed_array_pass1 key (w1, i1, j1) = (w', i', j')" by simp
  moreover have "i1 < 312 \<and> j1 < length key \<and> length w1 = length w"
    using Suc.IH [OF mid] Suc.prems by simp
  ultimately show ?case using seed_array_pass1_inv by metis
qed

lemma init_by_array64_loop1_spec:
  assumes "length init_key = unat key_length" and "i < 312" and "j < length init_key"
  shows "init_by_array64_loop1 k init_key key_length (ctx, i, j) =
           (case (seed_array_pass1 init_key ^^ k) (mt ctx, i, j) of
              (w, i', j') \<Rightarrow> Some (ctx\<lparr>mt := w\<rparr>, i', j'))"
  using assms(2,3)
proof (induction k arbitrary: ctx i j)
  case 0
  then show ?case by simp
next
  case (Suc k)
  obtain w1 i1 j1 where step: "seed_array_pass1 init_key (mt ctx, i, j) = (w1, i1, j1)"
    by (cases "seed_array_pass1 init_key (mt ctx, i, j)") auto
  have inv: "i1 < 312" "j1 < length init_key"
    using seed_array_pass1_inv [OF step] Suc.prems by simp_all
  have "init_by_array64_loop1 (Suc k) init_key key_length (ctx, i, j) =
          init_by_array64_loop1 k init_key key_length (ctx\<lparr>mt := w1\<rparr>, i1, j1)"
    using step Suc.prems assms(1)
    by (auto simp add: seed_array_pass1_def Let_def NN_def split: if_splits)
  also have "\<dots> = (case (seed_array_pass1 init_key ^^ k) (w1, i1, j1) of
              (w, i', j') \<Rightarrow> Some (ctx\<lparr>mt := w\<rparr>, i', j'))"
    using Suc.IH [OF inv, of "ctx\<lparr>mt := w1\<rparr>"] by simp
  finally show ?case by (simp add: funpow_swap1 step)
qed

lemma seed_array_pass2_inv:
  assumes "seed_array_pass2 (w, i) = (w', i')" and "i < 312"
  shows "i' < 312 \<and> length w' = length w"
  using assms by (auto simp add: seed_array_pass2_def Let_def split: if_splits)

lemma init_by_array64_loop2_spec:
  assumes "i < 312"
  shows "init_by_array64_loop2 k (ctx, i) =
           (case (seed_array_pass2 ^^ k) (mt ctx, i) of
              (w, i') \<Rightarrow> (ctx\<lparr>mt := w\<rparr>, i'))"
  using assms
proof (induction k arbitrary: ctx i)
  case 0
  then show ?case by simp
next
  case (Suc k)
  obtain w1 i1 where step: "seed_array_pass2 (mt ctx, i) = (w1, i1)"
    by (cases "seed_array_pass2 (mt ctx, i)") auto
  have inv: "i1 < 312"
    using seed_array_pass2_inv [OF step] Suc.prems by simp
  have "init_by_array64_loop2 (Suc k) (ctx, i) =
          init_by_array64_loop2 k (ctx\<lparr>mt := w1\<rparr>, i1)"
    using step Suc.prems
    by (auto simp add: seed_array_pass2_def Let_def NN_def split: if_splits)
  also have "\<dots> = (case (seed_array_pass2 ^^ k) (w1, i1) of
              (w, i') \<Rightarrow> (ctx\<lparr>mt := w\<rparr>, i'))"
    using Suc.IH [OF inv, of "ctx\<lparr>mt := w1\<rparr>"] by simp
  finally show ?case by (simp add: funpow_swap1 step)
qed

lemma seed_array_pass2_funpow_length:
  assumes "(seed_array_pass2 ^^ k) (w, i) = (w', i')" and "i < 312"
  shows "i' < 312 \<and> length w' = length w"
  using assms
proof (induction k arbitrary: w' i')
  case 0
  then show ?case by simp
next
  case (Suc k)
  obtain w1 i1 where mid: "(seed_array_pass2 ^^ k) (w, i) = (w1, i1)"
    by (cases "(seed_array_pass2 ^^ k) (w, i)") auto
  with Suc.prems have "seed_array_pass2 (w1, i1) = (w', i')" by simp
  moreover have "i1 < 312 \<and> length w1 = length w"
    using Suc.IH [OF mid] Suc.prems by simp
  ultimately show ?case using seed_array_pass2_inv by metis
qed

lemma init_by_array64_spec:
  assumes "init_key \<noteq> []" and "length init_key = unat key_length"
  shows "init_by_array64 ctx init_key key_length = Some (mt_seed_array_spec ctx init_key)"
proof -
  let ?c0 = "init_genrand64 ctx 19650218"
  let ?k = "max 312 (length init_key)"
  obtain w1 i1 j1 where p1: "(seed_array_pass1 init_key ^^ ?k) (mt ?c0, 1, 0) = (w1, i1, j1)"
    by (cases "(seed_array_pass1 init_key ^^ ?k) (mt ?c0, 1, 0)") auto
  have i1: "i1 < 312"
    using seed_array_pass1_funpow_inv [OF p1] assms(1) by simp
  obtain w2 i2 where p2: "(seed_array_pass2 ^^ 311) (w1, i1) = (w2, i2)"
    by (cases "(seed_array_pass2 ^^ 311) (w1, i1)") auto
  have k: "(if NN > unat key_length then NN else unat key_length) = ?k"
    using assms(2) by (simp add: NN_def max_def)
  have l1: "init_by_array64_loop1 ?k init_key key_length (?c0, 1, 0) = Some (?c0\<lparr>mt := w1\<rparr>, i1, j1)"
    using init_by_array64_loop1_spec [OF assms(2), of 1 0 ?k ?c0] assms(1) p1 by simp
  have l2: "init_by_array64_loop2 311 (?c0\<lparr>mt := w1\<rparr>, i1) = (?c0\<lparr>mt := w2\<rparr>, i2)"
    using init_by_array64_loop2_spec [OF i1, of 311 "?c0\<lparr>mt := w1\<rparr>"] p2 by simp
  have "init_by_array64 ctx init_key key_length = Some (?c0\<lparr>mt := w2[0 := push_bit 63 1]\<rparr>)"
    unfolding init_by_array64_def Let_def k l1 by (simp add: l2 NN_def)
  moreover have "mt_seed_array_spec ctx init_key = \<lparr>mt = w2[0 := 2 ^ 63], mti = 312\<rparr>"
    unfolding mt_seed_array_spec_def Let_def p1 by (simp add: p2)
  moreover have "?c0\<lparr>mt := w2[0 := push_bit 63 1]\<rparr> = \<lparr>mt = w2[0 := 2 ^ 63], mti = 312\<rparr>"
    by (cases ?c0) (use init_genrand64_mti [of ctx 19650218] in \<open>simp add: NN_def\<close>)
  ultimately show ?thesis by simp
qed


lemma init_by_array64_loop1_mti:
  "init_by_array64_loop1 k init_key key_length (ctx, i, j) = Some (ctx', i', j')
     \<Longrightarrow> mti ctx' = mti ctx"
proof (induction k arbitrary: ctx i j)
  case 0
  then show ?case by simp
next
  case (Suc k)
  from Suc.prems show ?case
    by (auto simp add: Let_def split: if_splits dest!: Suc.IH)
qed

lemma init_by_array64_loop2_mti:
  "mti (fst (init_by_array64_loop2 k (ctx, i))) = mti ctx"
  by (induction k arbitrary: ctx i) (simp_all add: Let_def)

lemma mt_seed_array_spec_fields:
  assumes "length (mt ctx) = NN" and "init_key \<noteq> []"
  shows "mt (mt_seed_array_spec ctx init_key) ! 0 = 2 ^ 63"
    and "mti (mt_seed_array_spec ctx init_key) = 312"
    and "length (mt (mt_seed_array_spec ctx init_key)) = NN"
proof -
  let ?c0 = "init_genrand64 ctx 19650218"
  let ?k = "max 312 (length init_key)"
  obtain w1 i1 j1 where p1: "(seed_array_pass1 init_key ^^ ?k) (mt ?c0, 1, 0) = (w1, i1, j1)"
    by (cases "(seed_array_pass1 init_key ^^ ?k) (mt ?c0, 1, 0)") auto
  have i1: "i1 < 312" and w1: "length w1 = NN"
    using seed_array_pass1_funpow_inv [OF p1] assms by simp_all
  obtain w2 i2 where p2: "(seed_array_pass2 ^^ 311) (w1, i1) = (w2, i2)"
    by (cases "(seed_array_pass2 ^^ 311) (w1, i1)") auto
  have w2: "length w2 = NN"
    using seed_array_pass2_funpow_length [OF p2 i1] w1 by simp
  have eq: "mt_seed_array_spec ctx init_key = \<lparr>mt = w2[0 := 2 ^ 63], mti = 312\<rparr>"
    unfolding mt_seed_array_spec_def Let_def p1 by (simp add: p2)
  show "mt (mt_seed_array_spec ctx init_key) ! 0 = 2 ^ 63"
    unfolding eq using w2 by (simp add: NN_def)
  show "mti (mt_seed_array_spec ctx init_key) = 312"
    unfolding eq by simp
  show "length (mt (mt_seed_array_spec ctx init_key)) = NN"
    unfolding eq using w2 by simp
qed


text \<open>
  C6. For every non-empty key, array seeding returns a state (it reads no key word out
  of range and both loops end) whose \<open>words[0]\<close> is \<open>2^63\<close> and whose index is 312.
  The state is the one the specification describes: pass 1 repeated \<open>max(312, L)\<close>
  times with its wrap-around of \<open>i\<close> and \<open>j\<close>, then pass 2 repeated 311 times. The
  scalar seeding with 19650218 leaves the index at 312, and it is still 312 after
  pass 1 and after pass 2.
\<close>

theorem init_by_array64_terminates:
  assumes "length (mt ctx) = NN" and "init_key \<noteq> []" and "length init_key = unat key_length"
  shows "\<exists>st c1 i1 j1.
           init_by_array64 ctx init_key key_length = Some st
         \<and> st = mt_seed_array_spec ctx init_key
         \<and> mt st ! 0 = 2 ^ 63 \<and> mti st = 312
         \<and> mti (init_genrand64 ctx 19650218) = 312
         \<and> init_by_array64_loop1 (max 312 (length init_key)) init_key key_length
              (init_genrand64 ctx 19650218, 1, 0) = Some (c1, i1, j1)
         \<and> mti c1 = 312
         \<and> mti (fst (init_by_array64_loop2 311 (c1, i1))) = 312"
proof -
  let ?c0 = "init_genrand64 ctx 19650218"
  have m0: "mti ?c0 = 312" by (simp add: NN_def)
  have "init_by_array64_loop1 (max 312 (length init_key)) init_key key_length (?c0, 1, 0) \<noteq> None"
    using init_by_array64_loop1_spec [OF assms(3), of 1 0 "max 312 (length init_key)" ?c0] assms(2)
    by (simp split: prod.splits)
  then obtain c1 i1 j1 where
    l1: "init_by_array64_loop1 (max 312 (length init_key)) init_key key_length (?c0, 1, 0)
           = Some (c1, i1, j1)"
    by auto
  have m1: "mti c1 = 312"
    using init_by_array64_loop1_mti [OF l1] m0 by simp
  have m2: "mti (fst (init_by_array64_loop2 311 (c1, i1))) = 312"
    using init_by_array64_loop2_mti [of 311 c1 i1] m1 by simp
  show ?thesis
    using init_by_array64_spec [OF assms(2,3), of ctx]
      mt_seed_array_spec_fields(1,2) [OF assms(1,2)] m0 l1 m1 m2
    by simp
qed

theorem init_by_array64_terminates_witness:
  "length (mt \<lparr>mt = replicate 312 0, mti = 0\<rparr>) = NN
   \<and> [0x12345, 0x23456, 0x34567, 0x45678 :: uint64_t] \<noteq> []
   \<and> length [0x12345, 0x23456, 0x34567, 0x45678 :: uint64_t] = unat (4 :: uint64_t)
   \<and> (\<exists>st. init_by_array64 \<lparr>mt = replicate 312 0, mti = 0\<rparr>
                [0x12345, 0x23456, 0x34567, 0x45678] 4 = Some st
            \<and> mt st ! 0 = 2 ^ 63 \<and> mti st = 312)"
proof -
  have h1: "length (mt \<lparr>mt = replicate 312 0, mti = 0\<rparr>) = NN"
    by (simp add: NN_def)
  have h2: "[0x12345, 0x23456, 0x34567, 0x45678 :: uint64_t] \<noteq> []"
    by simp
  have h3: "length [0x12345, 0x23456, 0x34567, 0x45678 :: uint64_t] = unat (4 :: uint64_t)"
    by simp
  from init_by_array64_terminates [OF h1 h2 h3] h1 h2 h3 show ?thesis
    by blast
qed


text \<open>
  C3, as the specification states it, asks for the most significant bit of \<open>words[0]\<close>
  after scalar seeding too. Scalar seeding stores the seed in \<open>words[0]\<close> and never
  changes it: with seed 0 the bit is clear.
\<close>

theorem init_genrand64_msb_counterexample:
  "\<not> bit (mt (init_genrand64 \<lparr>mt = replicate 312 0, mti = 0\<rparr> 0) ! 0) 63"
  by (simp add: init_genrand64_head)


text \<open>
  C3, amended. After array seeding with a non-empty key the most significant bit of
  \<open>words[0]\<close> is set. After scalar seeding \<open>words[0]\<close> is the seed, so its most
  significant bit is set exactly when that of the seed is.
\<close>

theorem seeding_msb:
  assumes "length (mt ctx) = NN" and "init_key \<noteq> []" and "length init_key = unat key_length"
  shows "(\<exists>st. init_by_array64 ctx init_key key_length = Some st \<and> bit (mt st ! 0) 63)
         \<and> mt (init_genrand64 ctx seed) ! 0 = seed
         \<and> (bit (mt (init_genrand64 ctx seed) ! 0) 63 \<longleftrightarrow> bit seed 63)"
proof -
  have "bit (2 ^ 63 :: uint64_t) 63"
    by (simp add: bit_exp_iff)
  then have "bit (mt (mt_seed_array_spec ctx init_key) ! 0) 63"
    using mt_seed_array_spec_fields(1) [OF assms(1,2)] by simp
  moreover have "mt (init_genrand64 ctx seed) ! 0 = seed"
    using assms(1) by (simp add: init_genrand64_head NN_def)
  ultimately show ?thesis
    using init_by_array64_spec [OF assms(2,3), of ctx] by simp
qed

theorem seeding_msb_witness:
  "length (mt \<lparr>mt = replicate 312 0, mti = 0\<rparr>) = NN
   \<and> [5 :: uint64_t] \<noteq> []
   \<and> length [5 :: uint64_t] = unat (1 :: uint64_t)
   \<and> (\<exists>st. init_by_array64 \<lparr>mt = replicate 312 0, mti = 0\<rparr> [5] 1 = Some st
            \<and> bit (mt st ! 0) 63)
   \<and> mt (init_genrand64 \<lparr>mt = replicate 312 0, mti = 0\<rparr> 7) ! 0 = 7"
proof -
  have h1: "length (mt \<lparr>mt = replicate 312 0, mti = 0\<rparr>) = NN"
    by (simp add: NN_def)
  have h2: "[5 :: uint64_t] \<noteq> []"
    by simp
  have h3: "length [5 :: uint64_t] = unat (1 :: uint64_t)"
    by simp
  from seeding_msb [OF h1 h2 h3, of 7] h1 h2 h3 show ?thesis
    by blast
qed

subsection \<open>Extraction\<close>

lemma untwist_loop_step:
  assumes "n < 155"
  shows "untwist_loop c 156 (of_nat n) (of_nat (n + 156)) =
           untwist_loop (c\<lparr>mt := untwist_body (mt c) n\<rparr>) 156 (of_nat (n + 1)) (of_nat (n + 157))"
proof -
  have U: "unat (of_nat m :: 64 word) = m" if "m < 312" for m
    using that by (simp add: unat_of_nat)
  have a1: "(of_nat n :: 64 word) + 1 = of_nat (n + 1)" by simp
  have a2: "(of_nat n :: 64 word) + 156 = of_nat (n + 156)" by simp
  have a3: "(of_nat (n + 156) :: 64 word) - 156 = of_nat n" by simp
  have a4: "(of_nat (n + 156) :: 64 word) + 1 = of_nat (n + 157)" by simp
  have neq: "(of_nat n :: 64 word) \<noteq> 156 - 1"
  proof
    assume "(of_nat n :: 64 word) = 156 - 1"
    then have "unat (of_nat n :: 64 word) = unat (155 :: 64 word)" by simp
    then show False using assms U [of n] by simp
  qed
  have u: "unat (of_nat n :: 64 word) = n" "unat (of_nat (n + 1) :: 64 word) = n + 1"
    "unat (of_nat (n + 156) :: 64 word) = n + 156" "unat (of_nat (n + 157) :: 64 word) = n + 157"
    by (rule U, use assms in simp)+
  show ?thesis
    apply (subst untwist_loop.simps)
    apply (simp only: neq if_True not_False_eq_True Let_def a1 a2 a3 a4 u)
    apply (rule_tac f = "\<lambda>c. untwist_loop c 156 (of_nat (n + 1)) (of_nat (n + 157))" in arg_cong)
    apply (simp add: untwist_body_def twist_def Let_def)
    done
qed

lemma untwist_loop_stop: "untwist_loop c 156 (of_nat 155) (of_nat (155 + 156)) = c"
  by (subst untwist_loop.simps) simp


lemma untwist_body_inv:
  assumes inv: "untwist_inv old n w" and n: "n < 155"
  shows "untwist_inv old (Suc n) (untwist_body w n)"
proof -
  from inv have len: "length w = 312"
    and nth: "\<And>k. k < 312 \<Longrightarrow>
                w ! k = (if k < n \<or> (156 \<le> k \<and> k < 156 + n) then regen_word old k else old ! k)"
    by (simp_all add: untwist_inv_def)
  define a where "a = twist (w ! (n + 156)) (w ! n) (w ! (n + 1))"
  define w1 where "w1 = w[n := a]"
  define b where "b = twist (w1 ! n) (w1 ! (n + 156)) (w1 ! (n + 157))"
  have body: "untwist_body w n = w1[n + 156 := b]"
    by (simp add: untwist_body_def Let_def a_def w1_def b_def)
  have a: "a = regen_word old n"
    using n nth [of "n + 156"] nth [of n] nth [of "n + 1"]
    by (simp add: a_def regen_word_def regen_lo_def)
  have w1: "w1 ! n = a" "w1 ! (n + 156) = old ! (n + 156)" "w1 ! (n + 157) = old ! (n + 157)"
    using n len nth [of "n + 156"] nth [of "n + 157"] by (simp_all add: w1_def)
  have b: "b = regen_word old (n + 156)"
    using n a by (simp add: b_def w1 regen_word_def add.commute)
  have "(w1[n + 156 := b]) ! k =
          (if k < Suc n \<or> (156 \<le> k \<and> k < 156 + Suc n) then regen_word old k else old ! k)"
    if k: "k < 312" for k
  proof -
    consider "k = n" | "k = n + 156" | "k \<noteq> n" "k \<noteq> n + 156" by blast
    then show ?thesis
    proof cases
      case 1
      then show ?thesis using n len a by (simp add: w1_def)
    next
      case 2
      then show ?thesis using n len b by (simp add: w1_def)
    next
      case 3
      then have "(w1[n + 156 := b]) ! k = w ! k" by (simp add: w1_def)
      then show ?thesis using 3 nth [OF k] by auto
    qed
  qed
  then show ?thesis
    using len by (simp add: untwist_inv_def body w1_def)
qed

lemma untwist_loop_inv:
  assumes "n \<le> 155" and "untwist_inv old n (mt c)"
  shows "untwist_inv old 155 (mt (untwist_loop c 156 (of_nat n) (of_nat (n + 156))))"
  using assms
proof (induction "155 - n" arbitrary: n c)
  case 0
  then have "n = 155" by simp
  then show ?case using "0.prems"(2) untwist_loop_stop [of c] by simp
next
  case (Suc d)
  then have n: "n < 155" by simp
  have "untwist_inv old (Suc n) (mt (c\<lparr>mt := untwist_body (mt c) n\<rparr>))"
    using untwist_body_inv [OF Suc.prems(2) n] by simp
  moreover have "d = 155 - Suc n" "Suc n \<le> 155"
    using Suc.hyps(2) n by simp_all
  ultimately have
    "untwist_inv old 155
       (mt (untwist_loop (c\<lparr>mt := untwist_body (mt c) n\<rparr>) 156 (of_nat (Suc n)) (of_nat (Suc n + 156))))"
    by (rule Suc.hyps(1) [rotated 2])
  moreover have "Suc n + 156 = n + 157" "Suc n = n + 1" by simp_all
  ultimately show ?case
    by (simp only: untwist_loop_step [OF n])
qed

lemma untwist_inv_start: "length old = 312 \<Longrightarrow> untwist_inv old 0 old"
  by (auto simp add: untwist_inv_def)

lemma untwist_mt:
  assumes len: "length (mt c) = 312"
  shows "mt (untwist c) = map (regen_word (mt c)) [0..<312]"
proof -
  define old where "old = mt c"
  define c1 where "c1 = untwist_loop c 156 0 156"
  have "untwist_inv old 155 (mt (untwist_loop c 156 (of_nat 0) (of_nat (0 + 156))))"
    using untwist_loop_inv [of 0 old c] untwist_inv_start [of old] len by (simp add: old_def)
  then have inv: "untwist_inv old 155 (mt c1)"
    by (simp add: c1_def)
  then have l1: "length (mt c1) = 312"
    and nth: "\<And>k. k < 312 \<Longrightarrow>
                mt c1 ! k = (if k < 155 \<or> (156 \<le> k \<and> k < 311) then regen_word old k else old ! k)"
    by (simp_all add: untwist_inv_def)
  define a where "a = twist (mt c1 ! 311) (mt c1 ! 155) (old ! 156)"
  define w2 where "w2 = (mt c1)[155 := a]"
  define b where "b = twist (w2 ! 155) (w2 ! 311) (w2 ! 0)"
  have res: "mt (untwist c) = w2[311 := b]"
    unfolding untwist_def Let_def NN_def
    by (simp add: c1_def [symmetric] old_def [symmetric] a_def w2_def b_def twist_def)
  have a: "a = regen_word old 155"
    using nth [of 311] nth [of 155] by (simp add: a_def regen_word_def regen_lo_def)
  have w2: "w2 ! 155 = a" "w2 ! 311 = old ! 311" "w2 ! 0 = regen_word old 0"
    using l1 nth [of 311] nth [of 0] by (simp_all add: w2_def)
  have b: "b = regen_word old 311"
    using a by (simp add: b_def w2 regen_word_def)
  have "(w2[311 := b]) ! k = regen_word old k" if k: "k < 312" for k
  proof -
    consider "k = 155" | "k = 311" | "k \<noteq> 155" "k \<noteq> 311" by blast
    then show ?thesis
    proof cases
      case 1
      then show ?thesis using l1 a by (simp add: w2_def)
    next
      case 2
      then show ?thesis using l1 b by (simp add: w2_def)
    next
      case 3
      then have "(w2[311 := b]) ! k = mt c1 ! k" by (simp add: w2_def)
      then show ?thesis using 3 k nth [OF k] by auto
    qed
  qed
  then have "w2[311 := b] = map (regen_word old) [0..<312]"
    using l1 by (intro nth_equalityI) (simp_all add: w2_def)
  then show ?thesis by (simp add: res old_def)
qed


lemma twist_textbook:
  "twist far cur nxt =
     (far XOR drop_bit 1 ((cur AND 0xFFFFFFFF80000000) OR (nxt AND 0x7FFFFFFF)))
       XOR (if bit nxt 0 then 0xB5026F5AA96619E9 else 0)"
proof -
  have "(nxt AND 1) * MATRIX_A = (if bit nxt 0 then MATRIX_A else 0)"
    by (simp add: and_one_eq mod_2_eq_odd bit_0)
  then show ?thesis
    by (simp only: twist_def UM_def LM_def MATRIX_A_def)
qed

lemma textbook_step_inv:
  assumes inv: "textbook_inv old n w" and n: "n < 312"
  shows "textbook_inv old (Suc n) (textbook_step w n)"
proof -
  from inv have len: "length w = 312"
    and nth: "\<And>k. k < 312 \<Longrightarrow> w ! k = (if k < n then regen_word old k else old ! k)"
    by (simp_all add: textbook_inv_def)
  define v where "v = twist (w ! ((n + 156) mod 312)) (w ! n) (w ! ((n + 1) mod 312))"
  have step: "textbook_step w n = w[n := v]"
    by (simp add: textbook_step_def v_def twist_textbook)
  have v: "v = regen_word old n"
  proof -
    consider "n < 156" | "156 \<le> n" "n < 311" | "n = 311" using n by linarith
    then show ?thesis
    proof cases
      case 1
      then have "(n + 156) mod 312 = n + 156" "(n + 1) mod 312 = n + 1" by simp_all
      then show ?thesis
        using 1 nth [of "n + 156"] nth [of n] nth [of "n + 1"]
        by (simp add: v_def regen_word_def regen_lo_def)
    next
      case 2
      then have m: "(n + 156) mod 312 = n - 156" "(n + 1) mod 312 = n + 1"
        by (simp_all add: mod_if)
      have lo: "n - 156 < 156" "n - 156 < n" "n - 156 < 312"
        using 2 by simp_all
      have "w ! (n - 156) = regen_lo old (n - 156)"
        using nth [OF lo(3)] lo(1,2) by (simp add: regen_word_def)
      then show ?thesis
        using 2 nth [of n] nth [of "n + 1"]
        by (simp add: v_def m regen_word_def)
    next
      case 3
      then have m: "(n + 156) mod 312 = 155" "(n + 1) mod 312 = 0"
        by simp_all
      show ?thesis
        using 3 nth [of 155] nth [of 311] nth [of 0]
        by (simp add: v_def m regen_word_def)
    qed
  qed
  have "(w[n := v]) ! k = (if k < Suc n then regen_word old k else old ! k)" if k: "k < 312" for k
    using k n len v nth [OF k] by (cases "k = n") auto
  then show ?thesis
    using len by (simp add: textbook_inv_def step)
qed

lemma textbook_fold_inv:
  assumes "length old = 312"
  shows "n \<le> 312 \<Longrightarrow> textbook_inv old n (foldl textbook_step old [0..<n])"
proof (induction n)
  case 0
  then show ?case using assms by (simp add: textbook_inv_def)
next
  case (Suc n)
  then have "textbook_inv old n (foldl textbook_step old [0..<n])" and "n < 312"
    by simp_all
  then show ?case
    using textbook_step_inv by simp
qed

lemma textbook_regenerate_words:
  assumes "length old = 312"
  shows "textbook_regenerate old = map (regen_word old) [0..<312]"
proof -
  have "textbook_inv old 312 (textbook_regenerate old)"
    using textbook_fold_inv [OF assms, of 312] by (simp add: textbook_regenerate_def)
  then show ?thesis
    by (intro nth_equalityI) (simp_all add: textbook_inv_def)
qed

text \<open>
  C1. When the index is at least 312, the regeneration done by \<open>genrand64_int64\<close> (the
  loop over the two cursors from 0 and from 156, then the updates of positions 155 and
  311 with the saved \<open>mt[156]\<close>) leaves exactly the array that the single in-place pass
  of the textbook recurrence over \<open>k = 0, \<dots>, 311\<close> computes.
\<close>

theorem untwist_refines_textbook:
  assumes "length (mt ctx) = NN" and "NN \<le> mti ctx"
  shows "mt (snd (genrand64_int64 ctx)) = textbook_regenerate (mt ctx)"
proof -
  have "mt (snd (genrand64_int64 ctx)) = mt (untwist ctx)"
    using assms(2) by (simp add: genrand64_int64_def Let_def)
  then show ?thesis
    using assms(1) by (simp add: untwist_mt textbook_regenerate_words NN_def)
qed

theorem untwist_refines_textbook_witness:
  "length (mt \<lparr>mt = map of_nat [0..<312], mti = 312\<rparr>) = NN
   \<and> NN \<le> mti \<lparr>mt = map of_nat [0..<312], mti = 312\<rparr>
   \<and> mt (snd (genrand64_int64 \<lparr>mt = map of_nat [0..<312], mti = 312\<rparr>))
       = textbook_regenerate (map of_nat [0..<312])"
  using untwist_refines_textbook [of "\<lparr>mt = map of_nat [0..<312], mti = 312\<rparr>"]
  by (simp add: NN_def)

subsection \<open>The reference vector\<close>

lemma length_init_scan [simp]: "length (init_scan p i n) = n"
  by (induction n arbitrary: p i) (simp_all add: Let_def)

lemma length_pass1_scan [simp]: "length (pass1_scan key p j xs) = length xs"
  by (induction xs arbitrary: p j) (simp_all add: Let_def)

lemma length_pass2_scan [simp]: "length (pass2_scan p i xs) = length xs"
  by (induction xs arbitrary: p i) (simp_all add: Let_def)

lemma init_genrand64_loop_scan:
  assumes "mt c = pre @ xs" and "mti c = length pre" and "pre \<noteq> []"
    and "length pre + length xs = NN"
  shows "mt (init_genrand64_loop c) = pre @ init_scan (last pre) (length pre) (length xs)"
  using assms
proof (induction xs arbitrary: pre c)
  case Nil
  then have "\<not> mti c < NN" by simp
  then have "init_genrand64_loop c = c"
    by (subst init_genrand64_loop.simps) simp
  then show ?case using Nil by simp
next
  case (Cons x xs)
  define v where "v = seed_step (last pre) (length pre)"
  define c' where "c' = c\<lparr>mt := (pre @ [v]) @ xs, mti := length (pre @ [v])\<rparr>"
  have lt: "mti c < NN" using Cons.prems by simp
  have prev: "mt c ! (mti c - 1) = last pre"
    using Cons.prems by (simp add: nth_append last_conv_nth)
  have upd: "(mt c)[mti c := v] = (pre @ [v]) @ xs"
    using Cons.prems by (simp add: list_update_append)
  have "init_genrand64_loop c = init_genrand64_loop c'"
    using lt prev upd Cons.prems(2)
    by (subst init_genrand64_loop.simps) (simp add: c'_def v_def seed_step_def)
  moreover have "mt (init_genrand64_loop c') =
      (pre @ [v]) @ init_scan (last (pre @ [v])) (length (pre @ [v])) (length xs)"
    by (rule Cons.IH) (use Cons.prems in \<open>simp_all add: c'_def\<close>)
  ultimately show ?case
    by (simp add: v_def Let_def)
qed

lemma init_genrand64_words:
  assumes "length (mt ctx) = NN"
  shows "mt (init_genrand64 ctx seed) = seed # init_scan seed 1 311"
proof -
  obtain x xs where w: "mt ctx = x # xs"
    using assms by (cases "mt ctx") (simp_all add: NN_def)
  have "mt (init_genrand64_loop (ctx\<lparr>mt := (mt ctx)[0 := seed], mti := 1\<rparr>))
          = [seed] @ init_scan (last [seed]) (length [seed]) (length xs)"
    by (rule init_genrand64_loop_scan) (use w assms in simp_all)
  moreover have "length xs = 311"
    using w assms by (simp add: NN_def)
  ultimately show ?thesis
    by (simp add: init_genrand64_def)
qed

lemma seed_array_pass1_at:
  assumes "pre \<noteq> []" and "j < length key"
  shows "seed_array_pass1 key (pre @ x # xs, length pre, j) =
           (let v = mix1 x (last pre) (key ! j) j;
                j' = (if j + 1 = length key then 0 else j + 1)
            in if length pre + 1 = 312 then (v # tl pre @ v # xs, 1, j')
               else (pre @ v # xs, length pre + 1, j'))"
proof -
  have nth: "(pre @ x # xs) ! length pre = x"
    by simp
  have prev: "(pre @ x # xs) ! (length pre - 1) = last pre"
    using assms(1) by (simp add: nth_append last_conv_nth)
  have upd: "(pre @ x # xs)[length pre := v] = pre @ v # xs" for v
    by simp
  have hd: "(pre @ v # xs)[0 := v'] = v' # tl pre @ v # xs" for v v'
    using assms(1) by (cases pre) simp_all
  have at: "(pre @ v # xs) ! 311 = v" if "length pre + 1 = 312" for v
    using that by (simp add: nth_append)
  show ?thesis
  proof (cases "length pre + 1 = 312")
    case True
    then show ?thesis
      unfolding seed_array_pass1_def
      by (simp only: prod.case Let_def nth prev upd mix1_def) (simp add: hd at [OF True])
  next
    case False
    then show ?thesis
      unfolding seed_array_pass1_def
      by (simp only: prod.case Let_def nth prev upd mix1_def) simp
  qed
qed

lemma pass1_funpow_scan:
  assumes "pre \<noteq> []" and "xs \<noteq> []" and "length pre + length xs = 312" and "j < length key"
  shows "(seed_array_pass1 key ^^ length xs) (pre @ xs, length pre, j) =
           (last (pass1_scan key (last pre) j xs) # tl pre @ pass1_scan key (last pre) j xs,
            1, (j + length xs) mod length key)"
  using assms
proof (induction xs arbitrary: pre j)
  case Nil
  then show ?case by simp
next
  case (Cons x xs)
  define v where "v = mix1 x (last pre) (key ! j) j"
  define j' where "j' = (if j + 1 = length key then 0 else j + 1)"
  have j': "j' < length key" "j' = (j + 1) mod length key"
    using Cons.prems(4) by (auto simp add: j'_def)
  have step_eq: "seed_array_pass1 key (pre @ x # xs, length pre, j) =
      (if length pre + 1 = 312 then (v # tl pre @ v # xs, 1, j')
       else (pre @ v # xs, length pre + 1, j'))"
    using seed_array_pass1_at [OF Cons.prems(1,4), of x xs]
    by (simp only: Let_def v_def j'_def)
  show ?case
  proof (cases xs)
    case Nil
    then have "length pre + 1 = 312" using Cons.prems(3) by simp
    then have "seed_array_pass1 key (pre @ x # xs, length pre, j) = (v # tl pre @ v # xs, 1, j')"
      using step_eq by simp
    then show ?thesis
      using Nil j'(2) by (simp add: Let_def v_def [symmetric])
  next
    case (Cons x' xs')
    then have ne: "length pre + 1 \<noteq> 312" and xs: "xs \<noteq> []"
      using Cons.prems(3) by simp_all
    have step: "seed_array_pass1 key (pre @ x # xs, length pre, j) = ((pre @ [v]) @ xs, length (pre @ [v]), j')"
      using ne step_eq by simp
    have "(seed_array_pass1 key ^^ length (x # xs)) (pre @ x # xs, length pre, j) =
            (seed_array_pass1 key ^^ length xs) ((pre @ [v]) @ xs, length (pre @ [v]), j')"
      by (simp add: funpow_swap1 step)
    also have "\<dots> = (last (pass1_scan key (last (pre @ [v])) j' xs) # tl (pre @ [v])
                        @ pass1_scan key (last (pre @ [v])) j' xs,
                      1, (j' + length xs) mod length key)"
      by (rule Cons.IH) (use xs j' Cons.prems in simp_all)
    also have "\<dots> = (last (pass1_scan key (last pre) j (x # xs)) # tl pre @ pass1_scan key (last pre) j (x # xs),
                      1, (j + length (x # xs)) mod length key)"
    proof -
      have "pass1_scan key v j' xs \<noteq> []"
        using Cons by (simp add: Let_def)
      moreover have "(j' + length xs) mod length key = (j + length (x # xs)) mod length key"
        by (simp add: j'(2) mod_add_left_eq)
      moreover have "pass1_scan key (last pre) j (x # xs) = v # pass1_scan key v j' xs"
        by (simp only: pass1_scan.simps Let_def v_def j'_def)
      ultimately show ?thesis
        using Cons.prems(1) by simp
    qed
    finally show ?thesis .
  qed
qed


lemma seed_array_pass2_at:
  assumes "pre \<noteq> []"
  shows "seed_array_pass2 (pre @ x # xs, length pre) =
           (let v = mix2 x (last pre) (length pre)
            in if length pre + 1 = 312 then (v # tl pre @ v # xs, 1)
               else (pre @ v # xs, length pre + 1))"
proof -
  have nth: "(pre @ x # xs) ! length pre = x"
    by simp
  have prev: "(pre @ x # xs) ! (length pre - 1) = last pre"
    using assms(1) by (simp add: nth_append last_conv_nth)
  have upd: "(pre @ x # xs)[length pre := v] = pre @ v # xs" for v
    by simp
  have hd: "(pre @ v # xs)[0 := v'] = v' # tl pre @ v # xs" for v v'
    using assms(1) by (cases pre) simp_all
  have at: "(pre @ v # xs) ! 311 = v" if "length pre + 1 = 312" for v
    using that by (simp add: nth_append)
  show ?thesis
  proof (cases "length pre + 1 = 312")
    case True
    then show ?thesis
      unfolding seed_array_pass2_def
      by (simp only: prod.case Let_def nth prev upd mix2_def) (simp add: hd at [OF True])
  next
    case False
    then show ?thesis
      unfolding seed_array_pass2_def
      by (simp only: prod.case Let_def nth prev upd mix2_def) simp
  qed
qed

lemma pass2_funpow_scan:
  assumes "pre \<noteq> []" and "xs \<noteq> []" and "length pre + length xs = 312"
  shows "(seed_array_pass2 ^^ length xs) (pre @ xs, length pre) =
           (last (pass2_scan (last pre) (length pre) xs) # tl pre @ pass2_scan (last pre) (length pre) xs, 1)"
  using assms
proof (induction xs arbitrary: pre)
  case Nil
  then show ?case by simp
next
  case (Cons x xs)
  define v where "v = mix2 x (last pre) (length pre)"
  have step_eq: "seed_array_pass2 (pre @ x # xs, length pre) =
      (if length pre + 1 = 312 then (v # tl pre @ v # xs, 1) else (pre @ v # xs, length pre + 1))"
    using seed_array_pass2_at [OF Cons.prems(1), of x xs]
    by (simp only: Let_def v_def)
  have sw: "pass2_scan (last pre) (length pre) (x # xs) = v # pass2_scan v (length pre + 1) xs"
    by (simp only: pass2_scan.simps Let_def v_def)
  show ?case
  proof (cases xs)
    case Nil
    then have "length pre + 1 = 312" using Cons.prems(3) by simp
    then have "seed_array_pass2 (pre @ x # xs, length pre) = (v # tl pre @ v # xs, 1)"
      using step_eq by simp
    then show ?thesis
      using Nil by (simp add: Let_def v_def [symmetric])
  next
    case (Cons x' xs')
    then have ne: "length pre + 1 \<noteq> 312" and xs: "xs \<noteq> []"
      using Cons.prems(3) by simp_all
    have step: "seed_array_pass2 (pre @ x # xs, length pre) = ((pre @ [v]) @ xs, length (pre @ [v]))"
      using ne step_eq by simp
    have "(seed_array_pass2 ^^ length (x # xs)) (pre @ x # xs, length pre) =
            (seed_array_pass2 ^^ length xs) ((pre @ [v]) @ xs, length (pre @ [v]))"
      by (simp add: funpow_swap1 step)
    also have "\<dots> = (last (pass2_scan (last (pre @ [v])) (length (pre @ [v])) xs) # tl (pre @ [v])
                        @ pass2_scan (last (pre @ [v])) (length (pre @ [v])) xs, 1)"
      by (rule Cons.IH) (use xs Cons.prems in simp_all)
    also have "\<dots> = (last (pass2_scan (last pre) (length pre) (x # xs)) # tl pre
                        @ pass2_scan (last pre) (length pre) (x # xs), 1)"
    proof -
      have "pass2_scan v (length pre + 1) xs \<noteq> []"
        using Cons by (simp add: Let_def)
      then show ?thesis
        using Cons.prems(1) sw by (simp del: pass2_scan.simps)
    qed
    finally show ?thesis .
  qed
qed

lemma mt_seed_array_spec_words:
  assumes len: "length (mt ctx) = NN" and key: "key \<noteq> []" "length key \<le> 312"
  shows "mt_seed_array_spec ctx key = \<lparr>mt = seeded_words key, mti = 312\<rparr>"
proof -
  define g where "g = init_scan 19650218 1 311"
  define ys1 where "ys1 = pass1_scan key 19650218 0 g"
  define j where "j = 311 mod length key"
  define v1 where "v1 = mix1 (hd ys1) (last ys1) (key ! j) j"
  define ys2 where "ys2 = pass2_scan v1 2 (tl ys1)"
  define m1 where "m1 = mix2 v1 (last ys2) 1"
  have w0: "mt (init_genrand64 ctx 19650218) = 19650218 # g"
    using len by (simp add: init_genrand64_words g_def)
  have lg: "length g = 311" by (simp add: g_def)
  have l1: "length ys1 = 311" by (simp add: ys1_def lg)
  have j: "j < length key" using key(1) by (simp add: j_def)
  have k: "max 312 (length key) = Suc (length g)"
    using key(2) lg by simp
  have "(seed_array_pass1 key ^^ length g) ([19650218] @ g, length [19650218 :: uint64_t], 0) =
          (last (pass1_scan key (last [19650218]) 0 g) # tl [19650218] @ pass1_scan key (last [19650218]) 0 g,
           1, (0 + length g) mod length key)"
    by (rule pass1_funpow_scan) (use lg key in auto)
  then have p311: "(seed_array_pass1 key ^^ length g) (19650218 # g, 1, 0) = (last ys1 # ys1, 1, j)"
    by (simp add: ys1_def j_def lg)
  obtain y ys' where ys1: "ys1 = y # ys'"
    using l1 by (cases ys1) simp_all
  have l': "length ys' = 310" using l1 ys1 by simp
  have "seed_array_pass1 key ([last ys1] @ y # ys', length [last ys1], j) =
          (let v = mix1 y (last [last ys1]) (key ! j) j;
               j' = (if j + 1 = length key then 0 else j + 1)
           in if length [last ys1] + 1 = 312 then (v # tl [last ys1] @ v # ys', 1, j')
              else ([last ys1] @ v # ys', length [last ys1] + 1, j'))"
    by (rule seed_array_pass1_at) (use j in simp_all)
  then have p312: "seed_array_pass1 key (last ys1 # ys1, 1, j) =
                     (last ys1 # v1 # ys', 2, if j + 1 = length key then 0 else j + 1)"
    by (simp add: ys1 v1_def Let_def)
  have "(seed_array_pass2 ^^ length ys') ([last ys1, v1] @ ys', length [last ys1, v1]) =
          (last (pass2_scan (last [last ys1, v1]) (length [last ys1, v1]) ys') # tl [last ys1, v1]
             @ pass2_scan (last [last ys1, v1]) (length [last ys1, v1]) ys', 1)"
    by (rule pass2_funpow_scan) (use l' in auto)
  moreover have "[last ys1, v1] @ ys' = last ys1 # v1 # ys'" "length [last ys1, v1] = 2"
    "last [last ys1, v1] = v1" "tl [last ys1, v1] @ zs = v1 # zs" for zs
    by simp_all
  moreover have "pass2_scan v1 2 ys' = ys2"
    by (simp add: ys2_def ys1)
  ultimately have q310: "(seed_array_pass2 ^^ 310) (last ys1 # v1 # ys', 2) = (last ys2 # v1 # ys2, 1)"
    by (simp only: l')
  have l2: "length ys2 = 310" by (simp add: ys2_def ys1 l')
  have "seed_array_pass2 ([last ys2] @ v1 # ys2, length [last ys2]) =
          (let v = mix2 v1 (last [last ys2]) (length [last ys2])
           in if length [last ys2] + 1 = 312 then (v # tl [last ys2] @ v # ys2, 1)
              else ([last ys2] @ v # ys2, length [last ys2] + 1))"
    by (rule seed_array_pass2_at) simp
  then have q311: "seed_array_pass2 (last ys2 # v1 # ys2, 1) = (last ys2 # m1 # ys2, 2)"
    by (simp add: m1_def Let_def)
  have e311: "(311 :: nat) = Suc 310" by simp
  have "mt_seed_array_spec ctx key = \<lparr>mt = (last ys2 # m1 # ys2)[0 := 2 ^ 63], mti = 312\<rparr>"
    unfolding mt_seed_array_spec_def Let_def w0 k
    by (simp only: funpow.simps o_apply p311 p312 prod.case e311 q310 q311)
  also have "\<dots> = \<lparr>mt = seeded_words key, mti = 312\<rparr>"
    unfolding seeded_words_def Let_def g_def ys1_def j_def v1_def ys2_def m1_def by simp
  finally show ?thesis .
qed

lemma genrand64_int64_first:
  assumes "length (mt st) = NN" and "mti st = NN"
  shows "fst (genrand64_int64 st) = temper (twist (mt st ! 156) (mt st ! 0) (mt st ! 1))"
proof -
  have m: "mt (untwist st) = map (regen_word (mt st)) [0..<312]"
    using assms(1) by (simp add: untwist_mt NN_def)
  have i: "mti (untwist st) = 0"
    by (simp add: untwist_def Let_def)
  have "mt (untwist st) ! 0 = twist (mt st ! 156) (mt st ! 0) (mt st ! 1)"
    unfolding m by (simp add: regen_word_def regen_lo_def del: upt_Suc)
  then show ?thesis
    using assms(2) by (simp add: genrand64_int64_def Let_def i temper_def)
qed

text \<open>
  One step of each scan on natural numbers: the word operations of \<open>seed_step\<close>,
  \<open>mix1\<close> and \<open>mix2\<close> on values \<open>u64 n\<close> are the same operations on \<open>n\<close>, reduced
  modulo \<open>2 ^ 64\<close>.
\<close>

lemma u64_eqI: "unat w = n \<Longrightarrow> w = u64 n"
  by (auto simp add: u64_def)

lemma unat_u64: "unat (u64 n) = take_bit 64 n"
  by (simp add: u64_def unat_of_nat take_bit_eq_mod)

lemma seed_step_u64:
  "seed_step (u64 p) i =
     u64 (take_bit 64 (6364136223846793005 * (take_bit 64 p XOR drop_bit 62 (take_bit 64 p)) + i))"
  apply (rule u64_eqI)
  apply (simp add: seed_step_def unat_word_ariths unsigned_xor_eq unat_drop_bit_eq unat_u64 unat_of_nat)
  apply (simp add: take_bit_eq_mod mod_simps)
  done

lemma mix1_u64:
  "mix1 (u64 x) (u64 p) (u64 k) j =
     u64 (take_bit 64
       ((take_bit 64 x
           XOR take_bit 64 ((take_bit 64 p XOR drop_bit 62 (take_bit 64 p)) * 3935559000370003845))
        + k + j))"
  apply (rule u64_eqI)
  apply (simp add: mix1_def unat_word_ariths unsigned_xor_eq unat_drop_bit_eq unat_u64 unat_of_nat)
  apply (simp add: take_bit_eq_mod mod_simps)
  done

lemma of_nat_neg_u64: "(of_nat (2 ^ 64 - take_bit 64 i) :: uint64_t) = - of_nat i"
proof -
  have le: "take_bit 64 i \<le> (2 ^ 64 :: nat)"
    by (simp add: take_bit_eq_mod)
  have "(of_nat (2 ^ 64 - take_bit 64 i) :: uint64_t) + of_nat (take_bit 64 i)
          = of_nat (2 ^ 64 - take_bit 64 i + take_bit 64 i)"
    by (simp only: of_nat_add)
  also have "\<dots> = of_nat (2 ^ 64)"
    using le by simp
  also have "\<dots> = (0 :: uint64_t)"
    by simp
  finally have "(of_nat (2 ^ 64 - take_bit 64 i) :: uint64_t) = - of_nat (take_bit 64 i)"
    by (simp add: eq_neg_iff_add_eq_0)
  moreover have "(of_nat (take_bit 64 i) :: uint64_t) = of_nat i"
    by (simp add: word_of_nat_eq_iff)
  ultimately show ?thesis by simp
qed

lemma mix2_u64:
  "mix2 (u64 x) (u64 p) i =
     u64 (take_bit 64
       ((take_bit 64 x
           XOR take_bit 64 ((take_bit 64 p XOR drop_bit 62 (take_bit 64 p)) * 2862933555777941757))
        + (2 ^ 64 - take_bit 64 i)))"
proof -
  have "mix2 (u64 x) (u64 p) i =
          (u64 x XOR ((u64 p XOR drop_bit 62 (u64 p)) * 2862933555777941757))
            + of_nat (2 ^ 64 - take_bit 64 i)"
    by (simp only: mix2_def of_nat_neg_u64) simp
  also have "\<dots> = u64 (take_bit 64
       ((take_bit 64 x
           XOR take_bit 64 ((take_bit 64 p XOR drop_bit 62 (take_bit 64 p)) * 2862933555777941757))
        + (2 ^ 64 - take_bit 64 i)))"
    apply (rule u64_eqI)
    apply (simp only: unat_word_ariths unsigned_xor_eq unat_drop_bit_eq unat_u64 unat_of_nat)
    apply (simp add: take_bit_eq_mod mod_simps)
    done
  finally show ?thesis .
qed

text \<open>
  Unfolding rules for the scans on numerals: the value of a step is computed first, and
  the rest of the scan is entered with that value.
\<close>

lemma seq_weak_cong: "x = y \<Longrightarrow> seq x f = seq y f"
  by simp

lemma Let_seq: "Let x f = seq x f"
  by (simp add: seq_def)

lemma seq_u64: "seq (u64 n) f = f (u64 n)"
  by (simp add: seq_def)

lemma seq_Cons: "seq (x # xs) f = f (x # xs)"
  by (simp add: seq_def)

lemma seq_numeral: "seq (numeral n :: nat) f = f (numeral n)"
  by (simp add: seq_def)

lemma init_scan_numeral:
  "init_scan p (numeral i) (numeral k) =
     seq (seed_step p (numeral i)) (\<lambda>v. v # init_scan v (numeral (i + num.One)) (pred_numeral k))"
proof -
  have "numeral (i + num.One) = numeral i + (1::nat)"
    by (simp only: numeral_plus_one)
  then show ?thesis
    by (subst numeral_eq_Suc [of k]) (simp only: init_scan.simps Let_seq)
qed

lemma init_scan_Suc_0: "init_scan p i (Suc 0) = [seed_step p i]"
  by simp

lemma init_scan_first:
  "init_scan p (Suc 0) (numeral k) = seq (seed_step p (Suc 0)) (\<lambda>v. v # init_scan v 2 (pred_numeral k))"
  by (subst numeral_eq_Suc [of k]) (simp only: init_scan.simps Let_seq, simp add: numeral_2_eq_2)

lemma pass1_scan_Cons:
  "pass1_scan key p j (x # xs) =
     seq (mix1 x p (key ! j) j)
       (\<lambda>v. v # pass1_scan key v (if j + 1 = length key then 0 else j + 1) xs)"
  by (simp only: pass1_scan.simps Let_seq)

lemma pass2_scan_numeral:
  "pass2_scan p (numeral i) (x # xs) =
     seq (mix2 x p (numeral i)) (\<lambda>v. v # pass2_scan v (numeral (i + num.One)) xs)"
proof -
  have "numeral (i + num.One) = numeral i + (1::nat)"
    by (simp only: numeral_plus_one)
  then show ?thesis
    by (simp only: pass2_scan.simps Let_seq)
qed

lemma take_bit_64_small: "p < 18446744073709551616 \<Longrightarrow> take_bit 64 (p::nat) = p"
  by (simp add: take_bit_eq_mod)

lemma seed_step_eval:
  "p < 18446744073709551616 \<Longrightarrow>
   seed_step (u64 p) i =
     u64 (take_bit 64 (6364136223846793005 * (p XOR drop_bit 62 p) + i))"
  by (simp add: seed_step_u64 take_bit_64_small)

lemma mix1_eval:
  "x < 18446744073709551616 \<Longrightarrow> p < 18446744073709551616 \<Longrightarrow>
   mix1 (u64 x) (u64 p) (u64 k) j =
     u64 (take_bit 64
       ((x XOR take_bit 64 ((p XOR drop_bit 62 p) * 3935559000370003845)) + k + j))"
  by (simp add: mix1_u64 take_bit_64_small)

lemma mix2_eval:
  "x < 18446744073709551616 \<Longrightarrow> p < 18446744073709551616 \<Longrightarrow> i < 18446744073709551616 \<Longrightarrow>
   mix2 (u64 x) (u64 p) i =
     u64 (take_bit 64
       ((x XOR take_bit 64 ((p XOR drop_bit 62 p) * 2862933555777941757))
        + (18446744073709551616 - i)))"
  by (simp add: mix2_u64 take_bit_64_small)

lemma seed_u64: "(19650218 :: uint64_t) = u64 19650218"
  by (simp add: u64_def)

lemmas seeding_eval = init_scan_numeral init_scan_Suc_0 init_scan_first pass1_scan_Cons
  pass2_scan_numeral seed_step_eval mix1_eval mix2_eval seq_u64 seq_Cons seq_numeral

text \<open>
  The reference key: the seeded array is computed once, word by word, and the first
  output is the tempered first word of the regenerated batch.
\<close>

lemma seeded_words_reference:
  "seq (seeded_words [u64 0x12345, u64 0x23456, u64 0x34567, u64 0x45678])
     (\<lambda>w. temper (twist (w ! 156) (w ! 0) (w ! 1))) = 7266447313870364031"
  unfolding seeded_words_def seed_u64 Let_seq
  apply (simp add: seeding_eval cong: seq_weak_cong
           del: init_scan.simps pass1_scan.simps(2) pass2_scan.simps(2))
  apply (simp add: u64_def temper_def twist_def UM_def LM_def MATRIX_A_def)
  done

text \<open>
  C2. After array seeding with the key \<open>[0x12345, 0x23456, 0x34567, 0x45678]\<close>, the first
  call of \<open>genrand64_int64\<close> returns 7266447313870364031.
\<close>

theorem mt_reference_first_output:
  assumes "length (mt ctx) = NN"
  shows "\<exists>st. init_by_array64 ctx [0x12345, 0x23456, 0x34567, 0x45678] 4 = Some st
            \<and> fst (genrand64_int64 st) = 7266447313870364031"
proof -
  let ?key = "[0x12345, 0x23456, 0x34567, 0x45678] :: uint64_t list"
  let ?st = "\<lparr>mt = seeded_words ?key, mti = 312\<rparr>"
  have key: "[u64 0x12345, u64 0x23456, u64 0x34567, u64 0x45678] = ?key"
    by (simp add: u64_def)
  have "init_by_array64 ctx ?key 4 = Some (mt_seed_array_spec ctx ?key)"
    by (rule init_by_array64_spec) simp_all
  moreover have w: "mt_seed_array_spec ctx ?key = ?st"
    by (rule mt_seed_array_spec_words) (use assms in simp_all)
  moreover have "length (mt ?st) = NN"
    using mt_seed_array_spec_fields(3) [OF assms, of ?key] w by simp
  then have "fst (genrand64_int64 ?st) =
      temper (twist (mt ?st ! 156) (mt ?st ! 0) (mt ?st ! 1))"
    by (rule genrand64_int64_first) (simp add: NN_def)
  then have "fst (genrand64_int64 ?st) = 7266447313870364031"
    using seeded_words_reference by (simp add: seq_def key)
  ultimately show ?thesis by simp
qed

theorem mt_reference_first_output_witness:
  "length (mt \<lparr>mt = replicate 312 0, mti = 0\<rparr>) = NN
   \<and> (\<exists>st. init_by_array64 \<lparr>mt = replicate 312 0, mti = 0\<rparr>
                [0x12345, 0x23456, 0x34567, 0x45678] 4 = Some st
            \<and> fst (genrand64_int64 st) = 7266447313870364031)"
proof -
  have h: "length (mt \<lparr>mt = replicate 312 0, mti = 0\<rparr>) = NN"
    by (simp add: NN_def)
  from mt_reference_first_output [OF h] h show ?thesis
    by blast
qed

subsection \<open>The draws in double precision\<close>

lemma round_half_even_of_int [simp]: "round_half_even (of_int m) = m"
  by (simp add: round_half_even_def)

lemma round_half_even_nonneg: "0 \<le> r \<Longrightarrow> 0 \<le> round_half_even r"
  by (auto simp add: round_half_even_def Let_def)

lemma round_half_even_le: "r \<le> of_int M \<Longrightarrow> round_half_even r \<le> M"
proof -
  assume r: "r \<le> of_int M"
  show ?thesis
  proof (cases "r = of_int M")
    case True
    then show ?thesis by simp
  next
    case False
    with r have "r < of_int M" by simp
    then have "\<lfloor>r\<rfloor> < M" by (simp add: floor_less_iff)
    then show ?thesis by (auto simp add: round_half_even_def Let_def)
  qed
qed

lemma round_half_even_below: "of_int M \<le> r \<Longrightarrow> r < of_int M + 1 / 2 \<Longrightarrow> round_half_even r = M"
proof -
  assume a: "of_int M \<le> r" "r < of_int M + 1 / 2"
  then have "\<lfloor>r\<rfloor> = M" by (simp add: floor_eq_iff)
  then show ?thesis using a by (simp add: round_half_even_def Let_def)
qed

lemma round_half_even_above: "of_int M + 1 / 2 < r \<Longrightarrow> r < of_int M + 1 \<Longrightarrow> round_half_even r = M + 1"
proof -
  assume a: "of_int M + 1 / 2 < r" "r < of_int M + 1"
  then have "\<lfloor>r\<rfloor> = M" by (simp add: floor_eq_iff)
  then show ?thesis using a by (simp add: round_half_even_def Let_def)
qed

lemma round_double_nonneg: "0 \<le> x \<Longrightarrow> 0 \<le> round_double x"
  by (simp add: round_double_def Let_def round_half_even_nonneg)

lemma round_double_exact:
  assumes m: "\<bar>m\<bar> < 2 ^ 53" and k: "- 1074 \<le> k"
  shows "round_double (of_int m * 2 powr of_int k) = of_int m * 2 powr of_int k"
proof (cases "m = 0")
  case True
  then show ?thesis by (simp add: round_double_def)
next
  case False
  define x :: real where "x = of_int m * 2 powr of_int k"
  define e where "e = max \<lfloor>log 2 \<bar>x\<bar>\<rfloor> (- 1022)"
  have x0: "x \<noteq> 0" using False by (simp add: x_def)
  have ax: "\<bar>x\<bar> = of_int \<bar>m\<bar> * 2 powr of_int k"
    by (simp add: x_def abs_mult)
  have "of_int \<bar>m\<bar> < (2 ^ 53 :: real)"
    using m by (metis of_int_less_numeral_power_cancel_iff)
  then have "\<bar>x\<bar> < 2 ^ 53 * 2 powr of_int k"
    unfolding ax by (simp add: mult_strict_right_mono)
  also have "\<dots> = 2 powr (of_int k + 53)"
    by (simp add: powr_add)
  finally have "log 2 \<bar>x\<bar> < of_int k + 53"
    using x0 by (simp add: log_less_iff)
  then have "\<lfloor>log 2 \<bar>x\<bar>\<rfloor> < k + 53"
    by (simp add: floor_less_iff)
  then have e: "e \<le> k + 52"
    using k by (simp add: e_def)
  define d where "d = nat (k + 52 - e)"
  have d: "of_int k - (of_int e - 52) = real d"
    using e by (simp add: d_def)
  have "x / 2 powr (of_int e - 52) = of_int m * 2 powr (of_int k - (of_int e - 52))"
    by (simp add: x_def powr_diff)
  also have "\<dots> = of_int (m * 2 ^ d)"
    by (simp add: d powr_realpow)
  finally have q: "x / 2 powr (of_int e - 52) = of_int (m * 2 ^ d)" .
  have "round_double x =
          of_int (round_half_even (x / 2 powr (of_int e - 52))) * 2 powr (of_int e - 52)"
    using x0 by (simp add: round_double_def Let_def e_def)
  also have "\<dots> = of_int (m * 2 ^ d) * 2 powr (of_int e - 52)"
    by (simp only: q round_half_even_of_int)
  also have "\<dots> = x / 2 powr (of_int e - 52) * 2 powr (of_int e - 52)"
    by (simp only: q)
  also have "\<dots> = x"
    by simp
  finally show ?thesis by (simp add: x_def)
qed

lemma round_double_of_nat:
  "n < 2 ^ 53 \<Longrightarrow> round_double (real n) = real n"
  using round_double_exact [of "int n" 0] by simp

lemma round_double_le_1:
  assumes "0 < y" and "y < 1 + 1 / 2 ^ 53"
  shows "round_double y \<le> 1"
proof (cases "y < 1")
  case True
  define e where "e = max \<lfloor>log 2 \<bar>y\<bar>\<rfloor> (- 1022)"
  have ay: "\<bar>y\<bar> = y" using assms(1) by simp
  have "log 2 y < 0" using True assms(1) by simp
  then have "\<lfloor>log 2 y\<rfloor> \<le> - 1"
    by (simp add: floor_le_iff)
  then have e: "e \<le> - 1" by (simp add: e_def ay)
  have "y < 2 powr (of_int \<lfloor>log 2 y\<rfloor> + 1)"
    using floor_log_eq_powr_iff [of y 2 "\<lfloor>log 2 y\<rfloor>"] assms(1) by simp
  also have "\<dots> \<le> 2 powr (of_int e + 1)"
    by (simp add: e_def ay)
  finally have "y / 2 powr (of_int e - 52) < 2 powr (of_int e + 1) / 2 powr (of_int e - 52)"
    by (simp add: divide_strict_right_mono)
  also have "\<dots> = of_int (2 ^ 53)"
    by (simp add: powr_diff [symmetric])
  finally have "round_half_even (y / 2 powr (of_int e - 52)) \<le> 2 ^ 53"
    by (intro round_half_even_le) simp
  then have "of_int (round_half_even (y / 2 powr (of_int e - 52))) * 2 powr (of_int e - 52)
               \<le> (2 ^ 53 :: real) * 2 powr (of_int e - 52)"
    by (intro mult_right_mono) (simp_all add: of_int_le_numeral_power_cancel_iff)
  also have "\<dots> = 2 powr (of_int e + 1)"
  proof -
    have "(2::real) powr ((of_int e - 52) + 53) = 2 powr (of_int e - 52) * 2 powr 53"
      by (rule powr_add)
    moreover have "(of_int e - 52 :: real) + 53 = of_int e + 1"
      by simp
    ultimately show ?thesis by simp
  qed
  also have "\<dots> \<le> 2 powr 0"
    using e by (intro powr_mono) simp_all
  finally show ?thesis
    using assms(1) by (simp add: round_double_def Let_def e_def)
next
  case False
  then have y1: "1 \<le> y" by simp
  have "\<lfloor>log 2 \<bar>y\<bar>\<rfloor> = 0"
    using y1 assms(2) by (simp add: floor_log_eq_powr_iff)
  then have r: "round_double y = of_int (round_half_even (y / 2 powr (- 52))) * 2 powr (- 52)"
    using y1 by (simp add: round_double_def Let_def)
  have p: "(2::real) powr (- 52) = 1 / 2 ^ 52"
    by (simp add: powr_minus_divide)
  have "round_half_even (y / 2 powr (- 52)) = 2 ^ 52"
    using y1 assms(2) by (intro round_half_even_below) (simp_all add: p field_simps)
  then show ?thesis
    by (simp add: r p)
qed

lemma round_double_inv_mask:
  "round_double (1 / 9007199254740991) = 4503599627370497 / 2 ^ 105"
proof -
  have e: "\<lfloor>log 2 (1 / 9007199254740991 :: real)\<rfloor> = - 53"
    by (simp add: floor_log_eq_powr_iff powr_minus_divide)
  have p: "(2::real) powr (- 105) = 1 / 2 ^ 105"
    by (simp add: powr_minus_divide)
  have "round_half_even (1 / 9007199254740991 / 2 powr (- 105)) = 2 ^ 52 + 1"
    by (intro round_half_even_above) (simp_all add: p)
  then show ?thesis
    by (simp add: round_double_def Let_def e p)
qed

lemma round_double_dyadic:
  assumes "n < 2 ^ 53" and "k \<le> 1074"
  shows "round_double (real n / 2 ^ k) = real n / 2 ^ k"
proof -
  have p: "2 powr of_int (- int k) = 1 / (2 :: real) ^ k"
    by (simp add: powr_minus_divide powr_realpow)
  have "round_double (of_int (int n) * 2 powr of_int (- int k)) =
          of_int (int n) * 2 powr of_int (- int k)"
    by (rule round_double_exact) (use assms in simp_all)
  then show ?thesis
    by (simp only: p) simp
qed

lemma unat_drop_bit_11: "unat (drop_bit 11 (w :: uint64_t)) < 2 ^ 53"
proof -
  have "unat w < 2 ^ 64"
    using unsigned_less [of w, where ?'a = nat] by simp
  then have "unat w div 2 ^ 11 < 2 ^ 53"
    by (simp add: less_mult_imp_div_less)
  moreover have "unat (drop_bit 11 w) = unat w div 2 ^ 11"
    by (simp only: unat_drop_bit_eq) (simp only: drop_bit_eq_div)
  ultimately show ?thesis
    by (simp only:)
qed

lemma unat_drop_bit_12: "unat (drop_bit 12 (w :: uint64_t)) < 2 ^ 52"
proof -
  have "unat w < 2 ^ 64"
    using unsigned_less [of w, where ?'a = nat] by simp
  then have "unat w div 2 ^ 12 < 2 ^ 52"
    by (simp add: less_mult_imp_div_less)
  moreover have "unat (drop_bit 12 w) = unat w div 2 ^ 12"
    by (simp only: unat_drop_bit_eq) (simp only: drop_bit_eq_div)
  ultimately show ?thesis
    by (simp only:)
qed

lemma real1_of_draw:
  fixes r :: uint64_t
  defines "v \<equiv> double_mul (double_of_u64 (drop_bit 11 r)) (double_div 1 9007199254740991)"
  shows "0 \<le> v \<and> v \<le> 1"
proof -
  define n where "n = unat (drop_bit 11 r)"
  have n: "n < 2 ^ 53" unfolding n_def by (rule unat_drop_bit_11)
  then have "n \<le> 9007199254740991"
    by simp
  then have "real n \<le> real 9007199254740991"
    by (rule of_nat_mono)
  then have n': "real n \<le> 9007199254740991"
    by simp
  define p :: real where "p = real n * (4503599627370497 / 2 ^ 105)"
  have v: "v = round_double p"
    using n by (simp add: v_def double_mul_def double_of_u64_def double_div_def n_def [symmetric]
        round_double_of_nat round_double_inv_mask p_def)
  have p0: "0 \<le> p" by (simp add: p_def)
  have "p \<le> 9007199254740991 * (4503599627370497 / 2 ^ 105)"
    unfolding p_def using n' by (intro mult_right_mono) simp_all
  also have "\<dots> < 1 + 1 / 2 ^ 53"
    by simp
  finally have p1: "p < 1 + 1 / 2 ^ 53" .
  show ?thesis
  proof (cases "p = 0")
    case True
    then show ?thesis by (simp add: v round_double_def)
  next
    case False
    with p0 have "0 < p" by simp
    then show ?thesis
      using p0 p1 by (simp add: v round_double_nonneg round_double_le_1)
  qed
qed

lemma real2_of_draw:
  fixes r :: uint64_t
  defines "v \<equiv> double_mul (double_of_u64 (drop_bit 11 r)) (double_div 1 9007199254740992)"
  shows "0 \<le> v \<and> v < 1"
proof -
  define n where "n = unat (drop_bit 11 r)"
  have n: "n < 2 ^ 53" unfolding n_def by (rule unat_drop_bit_11)
  have c: "round_double (1 / 9007199254740992) = 1 / 2 ^ 53"
    using round_double_dyadic [of 1 53] by simp
  have "v = round_double (real n / 2 ^ 53)"
    using n by (simp add: v_def double_mul_def double_of_u64_def double_div_def n_def [symmetric]
        round_double_of_nat c)
  also have "\<dots> = real n / 2 ^ 53"
    using n by (intro round_double_dyadic) simp_all
  finally have v: "v = real n / 2 ^ 53" .
  have "real n < real (2 ^ 53)"
    using n by (simp only: of_nat_less_iff)
  then have "real n < 2 ^ 53"
    by simp
  then show ?thesis
    by (simp add: v)
qed

lemma real3_of_draw:
  fixes r :: uint64_t
  defines "v \<equiv> double_mul (double_add (double_of_u64 (drop_bit 12 r)) (1 / 2))
                  (double_div 1 4503599627370496)"
  shows "0 < v \<and> v < 1"
proof -
  define m where "m = unat (drop_bit 12 r)"
  have m: "m < 2 ^ 52" unfolding m_def by (rule unat_drop_bit_12)
  then have m53: "m < 2 ^ 53" "2 * m + 1 < 2 ^ 53" by simp_all
  have c: "round_double (1 / 4503599627370496) = 1 / 2 ^ 52"
    using round_double_dyadic [of 1 52] by simp
  have h: "real m + 1 / 2 = real (2 * m + 1) / 2 ^ 1"
    by simp
  have a: "round_double (real m + 1 / 2) = real (2 * m + 1) / 2 ^ 1"
    unfolding h using m53(2) by (intro round_double_dyadic) simp_all
  have q: "real (2 * m + 1) / 2 ^ 1 * (1 / 2 ^ 52) = real (2 * m + 1) / 2 ^ 53"
    by simp
  have "v = round_double (real (2 * m + 1) / 2 ^ 1 * (1 / 2 ^ 52))"
    using m53(1)
    by (simp only: v_def double_mul_def double_add_def double_of_u64_def double_div_def
        m_def [symmetric] round_double_of_nat a c)
  also have "\<dots> = real (2 * m + 1) / 2 ^ 53"
    unfolding q using m53(2) by (intro round_double_dyadic) simp_all
  finally have v: "v = real (2 * m + 1) / 2 ^ 53" .
  have "real (2 * m + 1) < real (2 ^ 53)"
    using m53(2) by (simp only: of_nat_less_iff)
  then have "real (2 * m + 1) < 2 ^ 53"
    by simp
  then show ?thesis
    by (simp add: v)
qed

text \<open>
  C9. For every state, the result of \<open>genrand64_real1\<close> lies in \<open>[0, 1]\<close>, that
  of \<open>genrand64_real2\<close> in \<open>[0, 1)\<close> and that of \<open>genrand64_real3\<close> in \<open>(0, 1)\<close>, where
  the three results are \<open>(draw >> 11) * (1 / 9007199254740991.0)\<close>,
  \<open>(draw >> 11) * (1 / 9007199254740992.0)\<close> and
  \<open>((draw >> 12) + 0.5) * (1 / 4503599627370496.0)\<close> of the 64-bit draw, every operation
  rounded to double precision.
\<close>

theorem genrand64_real_ranges:
  "0 \<le> fst (genrand64_real1 ctx) \<and> fst (genrand64_real1 ctx) \<le> 1
   \<and> 0 \<le> fst (genrand64_real2 ctx) \<and> fst (genrand64_real2 ctx) < 1
   \<and> 0 < fst (genrand64_real3 ctx) \<and> fst (genrand64_real3 ctx) < 1
   \<and> fst (genrand64_real1 ctx) =
         round_double (round_double (real (unat (drop_bit 11 (fst (genrand64_int64 ctx)))))
                         * round_double (1 / 9007199254740991))
   \<and> fst (genrand64_real2 ctx) =
         round_double (round_double (real (unat (drop_bit 11 (fst (genrand64_int64 ctx)))))
                         * round_double (1 / 9007199254740992))
   \<and> fst (genrand64_real3 ctx) =
         round_double (round_double (round_double (real (unat (drop_bit 12 (fst (genrand64_int64 ctx)))))
                                       + 1 / 2)
                         * round_double (1 / 4503599627370496))"
proof -
  let ?draw = "fst (genrand64_int64 ctx)"
  have r1: "fst (genrand64_real1 ctx) =
      double_mul (double_of_u64 (drop_bit 11 ?draw)) (double_div 1 9007199254740991)"
    by (simp add: genrand64_real1_def split_beta)
  have r2: "fst (genrand64_real2 ctx) =
      double_mul (double_of_u64 (drop_bit 11 ?draw)) (double_div 1 9007199254740992)"
    by (simp add: genrand64_real2_def split_beta)
  have r3: "fst (genrand64_real3 ctx) =
      double_mul (double_add (double_of_u64 (drop_bit 12 ?draw)) (1 / 2))
        (double_div 1 4503599627370496)"
    by (simp add: genrand64_real3_def split_beta)
  have "0 \<le> fst (genrand64_real1 ctx) \<and> fst (genrand64_real1 ctx) \<le> 1"
    unfolding r1 by (rule real1_of_draw)
  moreover have "0 \<le> fst (genrand64_real2 ctx) \<and> fst (genrand64_real2 ctx) < 1"
    unfolding r2 by (rule real2_of_draw)
  moreover have "0 < fst (genrand64_real3 ctx) \<and> fst (genrand64_real3 ctx) < 1"
    unfolding r3 by (rule real3_of_draw)
  moreover have "fst (genrand64_real1 ctx) =
         round_double (round_double (real (unat (drop_bit 11 ?draw)))
                         * round_double (1 / 9007199254740991))"
    unfolding r1 by (simp only: double_mul_def double_of_u64_def double_div_def)
  moreover have "fst (genrand64_real2 ctx) =
         round_double (round_double (real (unat (drop_bit 11 ?draw)))
                         * round_double (1 / 9007199254740992))"
    unfolding r2 by (simp only: double_mul_def double_of_u64_def double_div_def)
  moreover have "fst (genrand64_real3 ctx) =
         round_double (round_double (round_double (real (unat (drop_bit 12 ?draw))) + 1 / 2)
                         * round_double (1 / 4503599627370496))"
    unfolding r3 by (simp only: double_mul_def double_add_def double_of_u64_def double_div_def)
  ultimately show ?thesis
    by blast
qed

subsection \<open>The frame of an extraction\<close>

text \<open>
  C10. When the index is below 312, \<open>genrand64_int64\<close> leaves the 312 words as they are
  and adds exactly 1 to the index; the words are rewritten only when the index is at
  least 312.
\<close>

theorem genrand64_int64_frame:
  "mti context < NN \<Longrightarrow>
     mt (snd (genrand64_int64 context)) = mt context \<and>
     mti (snd (genrand64_int64 context)) = mti context + 1"
  by (simp add: genrand64_int64_def Let_def)

theorem genrand64_int64_frame_witness:
  "mti \<lparr>mt = replicate 312 5, mti = 7\<rparr> < NN \<and>
     mt (snd (genrand64_int64 \<lparr>mt = replicate 312 5, mti = 7\<rparr>)) = replicate 312 5 \<and>
     mti (snd (genrand64_int64 \<lparr>mt = replicate 312 5, mti = 7\<rparr>)) = 8"
  using genrand64_int64_frame [of "\<lparr>mt = replicate 312 5, mti = 7\<rparr>"]
  by (simp add: NN_def)

end
